theory Spec2Isabelle
  imports Main "HOL-Library.Word"
begin

unbundle bit_operations_syntax

section \<open>The symbol table of symtab.c\<close>

text \<open>
  A shallow embedding of \<^verbatim>\<open>src/symtab.c\<close>: a hash table with a fixed array of
  buckets, each bucket a singly linked chain of (key, value) nodes.

  Conventions of the model.
  \<^item> The platform is LP64 with GCC's conversions: \<^verbatim>\<open>int\<close> and \<^verbatim>\<open>unsigned int\<close> are
    32-bit words, a \<^verbatim>\<open>void *\<close> payload is a 64-bit word, plain \<^verbatim>\<open>char\<close> is signed.
    \<^verbatim>\<open>main.c\<close> stores counters with \<^verbatim>\<open>(void *) (long) 1\<close>, which takes the same view.
  \<^item> A C string is the list of its bytes before the terminating NUL.
  \<^item> A \<^verbatim>\<open>struct entry_s *\<close> is \<open>NULL\<close> or a node with its three fields; the node's
    \<^verbatim>\<open>next\<close> field is again such a pointer. Chains are therefore finite and unshared,
    which is how \<^verbatim>\<open>symtabInstall\<close> builds them (every node is allocated there and
    linked into one chain).
  \<^item> Undefined behaviour (a dereferenced null pointer, an array read outside the
    allocated block, a division by zero) is a value of type \<open>error\<close>.
  \<^item> \<^verbatim>\<open>malloc\<close> is an oracle: the allocator holds the outcomes of the coming calls
    and the unspecified contents of fresh memory.
\<close>

type_synonym uint = "32 word"
type_synonym cint = "32 word"
type_synonym voidp = "64 word"

datatype error = NullDeref | OutOfBounds | DivByZero

text \<open>\<^verbatim>\<open>struct entry_s { char *key; void *value; struct entry_s *next; }\<close>, seen through
  a pointer to it. The key pointer may be null (\<open>None\<close>).\<close>

datatype entry_ptr = NULL | Entry "string option" voidp entry_ptr

text \<open>\<^verbatim>\<open>struct hashtable_s { int size; struct entry_s **table; }\<close>. The list is the
  allocated bucket array; its length is what \<^verbatim>\<open>malloc\<close> was asked for.\<close>

record hashtable_s =
  size_ht :: cint
  table :: "entry_ptr list"

text \<open>\<^verbatim>\<open>struct hash_elem_it_s { struct hashtable_s *ht; unsigned int index;
  struct entry_s *elem; }\<close>. The iterator does not copy the table in C; the model
  holds the table's value, which is the same as long as the table is not modified
  while the iterator lives (the precondition the source documents).\<close>

record hash_elem_it_s =
  ht :: hashtable_s
  index :: uint
  elem :: entry_ptr

subsection \<open>Memory allocation\<close>

record allocator =
  outcomes :: "bool list"
  junk_key :: "string option"
  junk_value :: voidp
  junk_next :: entry_ptr

text \<open>One call of \<^verbatim>\<open>malloc\<close>: \<open>True\<close> when memory was obtained. When the list of
  outcomes is used up, every later call succeeds.\<close>

definition malloc :: "allocator \<Rightarrow> bool \<times> allocator" where
  "malloc al = (case outcomes al of [] \<Rightarrow> (True, al) | b # bs \<Rightarrow> (b, al\<lparr>outcomes := bs\<rparr>))"

text \<open>Blocks handed to \<^verbatim>\<open>free\<close>, in the order of the calls.\<close>

datatype freed = FreedKey string | FreedEntry "string option" voidp

subsection \<open>Strings\<close>

text \<open>\<^verbatim>\<open>strcmp\<close> compares bytes as \<^verbatim>\<open>unsigned char\<close>; only the sign of its result is
  specified, so the model returns -1, 0 or 1.\<close>

fun strcmp :: "string \<Rightarrow> string \<Rightarrow> int" where
  "strcmp [] [] = 0"
| "strcmp [] (y # ys) = - 1"
| "strcmp (x # xs) [] = 1"
| "strcmp (x # xs) (y # ys) =
     (if x = y then strcmp xs ys
      else if (of_char x :: nat) < of_char y then - 1 else 1)"

subsection \<open>hash\<close>

text \<open>\<^verbatim>\<open>hash ^ *str\<close>: the (signed) char is promoted to int and converted to unsigned.\<close>

definition char_to_uint :: "char \<Rightarrow> uint" where
  "char_to_uint c = scast (of_char c :: 8 word)"

fun hash_loop :: "uint \<Rightarrow> string \<Rightarrow> uint" where
  "hash_loop h [] = h"
| "hash_loop h (c # str) = hash_loop ((h XOR char_to_uint c) * 16777619) str"

definition hash :: "hashtable_s \<Rightarrow> string \<Rightarrow> error + uint" where
  "hash hashtable str =
     (let h0 = hash_loop 2166136261 str;
          h1 = h0 + push_bit 13 h0;
          h2 = h1 XOR drop_bit 7 h1;
          h3 = h2 + push_bit 3 h2;
          h4 = h3 XOR drop_bit 17 h3;
          h5 = h4 + push_bit 5 h4
      in if size_ht hashtable = 0 then Inl DivByZero
         else Inr (h5 mod size_ht hashtable))"

text \<open>\<^verbatim>\<open>hashtable->table[i]\<close> as a read: outside the allocated array it is undefined.\<close>

definition read_table :: "hashtable_s \<Rightarrow> int \<Rightarrow> error + entry_ptr" where
  "read_table hashtable i =
     (if 0 \<le> i \<and> i < int (length (table hashtable))
      then Inr (table hashtable ! nat i) else Inl OutOfBounds)"

text \<open>\<^verbatim>\<open>int bin = hash(hashtable, key);\<close> in \<^verbatim>\<open>lookup\<close> and \<^verbatim>\<open>symtabInstall\<close>: the
  unsigned result is read as a signed int.\<close>

definition bucket_index :: "hashtable_s \<Rightarrow> string \<Rightarrow> error + int" where
  "bucket_index hashtable key =
     (case hash hashtable key of Inl e \<Rightarrow> Inl e | Inr h \<Rightarrow> Inr (sint h))"

subsection \<open>lookup and symtabLookup\<close>

definition lookup :: "hashtable_s \<Rightarrow> string \<Rightarrow> error + voidp" where
  "lookup hashtable key =
     (case bucket_index hashtable key of
        Inl e \<Rightarrow> Inl e
      | Inr bin \<Rightarrow>
          (case read_table hashtable bin of
             Inl e \<Rightarrow> Inl e
           | Inr pair \<Rightarrow>
               (case pair of
                  NULL \<Rightarrow> Inr 0
                | Entry k v n \<Rightarrow>
                    (case k of
                       None \<Rightarrow> Inr 0
                     | Some s \<Rightarrow> if strcmp key s \<noteq> 0 then Inr 0 else Inr v))))"

text \<open>\<^verbatim>\<open>int data; data = lookup(...); if (data != NULL) return data; return NULL;\<close>
  The pointer goes through a 32-bit \<^verbatim>\<open>int\<close>: the conversion to \<^verbatim>\<open>int\<close> keeps the low
  32 bits, the conversion back to \<^verbatim>\<open>void *\<close> extends the sign.\<close>

definition symtabLookup :: "hashtable_s \<Rightarrow> string \<Rightarrow> error + voidp" where
  "symtabLookup symtabHandle symbol =
     (case lookup symtabHandle symbol of
        Inl e \<Rightarrow> Inl e
      | Inr p \<Rightarrow>
          (let data = (ucast p :: cint)
           in if data \<noteq> 0 then Inr (scast data) else Inr 0))"

subsection \<open>symtabCreate\<close>

text \<open>\<^verbatim>\<open>for (i = 0; i < sizeHint; i++) hashtable->table[i] = NULL;\<close>\<close>

function init_loop :: "entry_ptr list \<Rightarrow> int \<Rightarrow> int \<Rightarrow> entry_ptr list" where
  "init_loop tbl i sizeHint =
     (if i < sizeHint then init_loop (tbl[nat i := NULL]) (i + 1) sizeHint else tbl)"
  by pat_completeness auto
termination
  by (relation "measure (\<lambda>(tbl, i, sizeHint). nat (sizeHint - i))") auto

text \<open>The result is the handle (\<open>None\<close> is the null handle) and the allocator after the
  calls made. The fresh bucket array holds unspecified pointers until the loop has
  run.\<close>

definition symtabCreate :: "allocator \<Rightarrow> cint \<Rightarrow> hashtable_s option \<times> allocator" where
  "symtabCreate al sizeHint =
     (if sint sizeHint < 1 then (None, al)
      else
        (case malloc al of
           (False, al1) \<Rightarrow> (None, al1)
         | (True, al1) \<Rightarrow>
             (case malloc al1 of
                (False, al2) \<Rightarrow> (None, al2)
              | (True, al2) \<Rightarrow>
                  (Some \<lparr>size_ht = sizeHint,
                         table = init_loop (replicate (nat (sint sizeHint)) (junk_next al))
                                   0 (sint sizeHint)\<rparr>,
                   al2))))"

subsection \<open>symtabInstall\<close>

text \<open>A pointer into a chain is modelled by the nodes before it (their keys and
  values, in chain order) together with the node it points to and all that follows.
  \<open>relink passed p\<close> is the chain from the bucket head after the \<^verbatim>\<open>next\<close> field of the
  last passed node (or the bucket head, when nothing was passed) has been redirected
  to \<open>p\<close>.\<close>

fun relink :: "(string option \<times> voidp) list \<Rightarrow> entry_ptr \<Rightarrow> entry_ptr" where
  "relink [] p = p"
| "relink ((k, v) # passed) p = Entry k v (relink passed p)"

text \<open>\<^verbatim>\<open>while (next != NULL && next->key != NULL && strcmp(symbol, next->key) > 0)
  { last = next; next = next->next; }\<close>\<close>

fun scan :: "string \<Rightarrow> (string option \<times> voidp) list \<Rightarrow> entry_ptr
    \<Rightarrow> (string option \<times> voidp) list \<times> entry_ptr" where
  "scan symbol passed NULL = (passed, NULL)"
| "scan symbol passed (Entry k v n) =
     (case k of
        None \<Rightarrow> (passed, Entry k v n)
      | Some s \<Rightarrow>
          if strcmp symbol s > 0 then scan symbol (passed @ [(k, v)]) n
          else (passed, Entry k v n))"

text \<open>\<^verbatim>\<open>next != NULL && next->key != NULL && strcmp(symbol, next->key) == 0\<close>\<close>

fun found :: "string \<Rightarrow> entry_ptr \<Rightarrow> bool" where
  "found symbol NULL = False"
| "found symbol (Entry k v n) =
     (case k of None \<Rightarrow> False | Some s \<Rightarrow> strcmp symbol s = 0)"

text \<open>\<^verbatim>\<open>next->value = data\<close>\<close>

fun set_value :: "voidp \<Rightarrow> entry_ptr \<Rightarrow> error + entry_ptr" where
  "set_value data NULL = Inl NullDeref"
| "set_value data (Entry k v n) = Inr (Entry k data n)"

text \<open>\<^verbatim>\<open>last->next = newpair\<close>: \<^verbatim>\<open>last\<close> is null when no node was passed.\<close>

definition set_last_next :: "(string option \<times> voidp) list \<Rightarrow> entry_ptr \<Rightarrow> error + entry_ptr" where
  "set_last_next passed newpair =
     (if passed = [] then Inl NullDeref else Inr (relink passed newpair))"

text \<open>The result is the return value, the allocator after the calls made and the
  table after the call. The key copy is \<^verbatim>\<open>malloc\<close> followed by \<^verbatim>\<open>strcpy\<close> with no
  check in between, so a failed second allocation is a write through a null
  pointer. The test \<^verbatim>\<open>next == hashtable->table[bin]\<close> compares pointers; the model
  compares what they point to, which decides the same, since a chain is never equal
  to a part of itself that starts later (\<open>scan_head_iff\<close> below).\<close>

definition symtabInstall ::
    "allocator \<Rightarrow> hashtable_s \<Rightarrow> string \<Rightarrow> voidp \<Rightarrow> error + (int \<times> allocator \<times> hashtable_s)" where
  "symtabInstall al hashtable symbol data =
     (case bucket_index hashtable symbol of
        Inl e \<Rightarrow> Inl e
      | Inr bin \<Rightarrow>
          (case read_table hashtable bin of
             Inl e \<Rightarrow> Inl e
           | Inr head \<Rightarrow>
               (let (passed, nxt) = scan symbol [] head
                in if found symbol nxt then
                     (case set_value data nxt of
                        Inl e \<Rightarrow> Inl e
                      | Inr nxt' \<Rightarrow>
                          Inr (1, al,
                            hashtable\<lparr>table := (table hashtable)[nat bin := relink passed nxt']\<rparr>))
                   else
                     (case malloc al of
                        (False, al1) \<Rightarrow> Inr (0, al1, hashtable)
                      | (True, al1) \<Rightarrow>
                          (case malloc al1 of
                             (False, al2) \<Rightarrow> Inl NullDeref
                           | (True, al2) \<Rightarrow>
                               if nxt = head then
                                 Inr (1, al2,
                                   hashtable\<lparr>table :=
                                     (table hashtable)[nat bin := Entry (Some symbol) data nxt]\<rparr>)
                               else if nxt = NULL then
                                 (case set_last_next passed (Entry (Some symbol) data NULL) of
                                    Inl e \<Rightarrow> Inl e
                                  | Inr chain \<Rightarrow>
                                      Inr (1, al2,
                                        hashtable\<lparr>table := (table hashtable)[nat bin := chain]\<rparr>))
                               else
                                 (case set_last_next passed (Entry (Some symbol) data nxt) of
                                    Inl e \<Rightarrow> Inl e
                                  | Inr chain \<Rightarrow>
                                      Inr (1, al2,
                                        hashtable\<lparr>table := (table hashtable)[nat bin := chain]\<rparr>)))))))"

subsection \<open>symtabDelete\<close>

text \<open>\<^verbatim>\<open>for (int i = 0; i <= hashtable->size; i++) { iterate = hashtable->table[i];
  if (iterate->key != NULL) free(iterate->key); }\<close>
  The result is how the loop ended (the last value of \<^verbatim>\<open>iterate\<close>, or the undefined
  behaviour that stopped it) and the blocks freed until then. The counter is a
  mathematical integer: the reads are checked against the array, so it never comes
  near the end of the \<^verbatim>\<open>int\<close> range on a table whose array has \<^verbatim>\<open>size\<close> cells.\<close>

function delete_loop ::
    "hashtable_s \<Rightarrow> int \<Rightarrow> entry_ptr \<Rightarrow> freed list \<Rightarrow> (error + entry_ptr) \<times> freed list" where
  "delete_loop hashtable i iterate fr =
     (if i \<le> sint (size_ht hashtable) then
        (case read_table hashtable i of
           Inl e \<Rightarrow> (Inl e, fr)
         | Inr p \<Rightarrow>
             (case p of
                NULL \<Rightarrow> (Inl NullDeref, fr)
              | Entry k v n \<Rightarrow>
                  delete_loop hashtable (i + 1) p
                    (case k of None \<Rightarrow> fr | Some s \<Rightarrow> fr @ [FreedKey s])))
      else (Inr iterate, fr))"
  by pat_completeness auto
termination
  by (relation "measure (\<lambda>(hashtable, i, iterate, fr). nat (sint (size_ht hashtable) + 1 - i))")
    auto

text \<open>After the loop: \<^verbatim>\<open>free(iterate)\<close>, which does nothing for a null pointer.\<close>

definition symtabDelete :: "hashtable_s \<Rightarrow> (error + unit) \<times> freed list" where
  "symtabDelete symtabHandle =
     (case delete_loop symtabHandle 0 NULL [] of
        (Inl e, fr) \<Rightarrow> (Inl e, fr)
      | (Inr iterate, fr) \<Rightarrow>
          (case iterate of
             NULL \<Rightarrow> (Inr (), fr)
           | Entry k v n \<Rightarrow> (Inr (), fr @ [FreedEntry k v])))"

subsection \<open>The iterator\<close>

text \<open>The loop that \<^verbatim>\<open>symtabCreateIterator\<close> and \<^verbatim>\<open>symtabNext\<close> both contain:
  \<^verbatim>\<open>do { if (elem != NULL && elem->key != NULL) break;
       else { index++; elem = ht->table[index]; } } while (index < (ht->size - 1));\<close>
  The index is an \<^verbatim>\<open>unsigned int\<close>; the comparison converts \<^verbatim>\<open>size - 1\<close> to unsigned.\<close>

fun has_key :: "entry_ptr \<Rightarrow> bool" where
  "has_key NULL = False"
| "has_key (Entry k v n) = (k \<noteq> None)"

function find_loop :: "hashtable_s \<Rightarrow> uint \<Rightarrow> entry_ptr \<Rightarrow> error + (uint \<times> entry_ptr)" where
  "find_loop hashtable idx el =
     (if has_key el then Inr (idx, el)
      else
        (case read_table hashtable (uint (idx + 1)) of
           Inl e \<Rightarrow> Inl e
         | Inr el' \<Rightarrow>
             if idx + 1 < size_ht hashtable - 1 then find_loop hashtable (idx + 1) el'
             else Inr (idx + 1, el')))"
  by pat_completeness auto
termination
proof (relation "measure (\<lambda>(hashtable, idx, el).
    if idx = - 1 then 2 ^ 32 + 1 else 2 ^ 32 - unat idx)")
  show "wf (measure (\<lambda>(hashtable :: hashtable_s, idx :: uint, el :: entry_ptr).
    if idx = - 1 then 2 ^ 32 + 1 else 2 ^ 32 - unat idx))"
    by simp
next
  fix hashtable :: hashtable_s and idx :: uint and el x2 :: entry_ptr
  assume lt: "idx + 1 < size_ht hashtable - 1"
  have bound: "unat idx < 2 ^ 32"
    using unsigned_less [of idx, where 'a = nat] by simp
  show "((hashtable, idx + 1, x2), (hashtable, idx, el))
      \<in> measure (\<lambda>(hashtable, idx, el). if idx = - 1 then 2 ^ 32 + 1 else 2 ^ 32 - unat idx)"
  proof (cases "idx = - 1")
    case True
    then show ?thesis by simp
  next
    case False
    then have "idx + 1 \<noteq> 0"
      by (metis add.commute add_eq_0_iff)
    then have suc: "unat (idx + 1) = Suc (unat idx)"
      by (simp add: unatSuc add.commute)
    have "idx + 1 \<noteq> - 1"
    proof
      assume "idx + 1 = - 1"
      with lt have "(- 1 :: uint) < size_ht hashtable - 1" by simp
      moreover have "size_ht hashtable - 1 \<le> (- 1 :: uint)"
        by (rule word_n1_ge)
      ultimately show False by simp
    qed
    with False suc bound show ?thesis by simp
  qed
qed

text \<open>The allocator's first call is for the iterator (a null handle when it fails), the
  second for the extra node that is put in front of the first entry; that second
  result is used unchecked. The extra node's key and value are never initialised.\<close>

definition symtabCreateIterator ::
    "allocator \<Rightarrow> hashtable_s \<Rightarrow> error + (hash_elem_it_s option \<times> allocator)" where
  "symtabCreateIterator al hashtable =
     (case malloc al of
        (False, al1) \<Rightarrow> Inr (None, al1)
      | (True, al1) \<Rightarrow>
          (case read_table hashtable 0 of
             Inl e \<Rightarrow> Inl e
           | Inr first \<Rightarrow>
               (case find_loop hashtable 0 first of
                  Inl e \<Rightarrow> Inl e
                | Inr (idx, el) \<Rightarrow>
                    (case malloc al1 of
                       (False, al2) \<Rightarrow> Inl NullDeref
                     | (True, al2) \<Rightarrow>
                         Inr (Some \<lparr>ht = hashtable, index = idx,
                                    elem = Entry (junk_key al1) (junk_value al1) el\<rparr>,
                              al2)))))"

text \<open>The last three statements of \<^verbatim>\<open>symtabNext\<close>:
  \<^verbatim>\<open>if (it->elem == NULL) return NULL; e = it->elem; *returnData = e->value;
  return e->key;\<close>\<close>

definition next_result ::
    "hash_elem_it_s \<Rightarrow> voidp \<Rightarrow> string option \<times> hash_elem_it_s \<times> voidp" where
  "next_result it returnData =
     (case elem it of
        NULL \<Rightarrow> (None, it, returnData)
      | Entry k v n \<Rightarrow> (k, it, v))"

text \<open>The result is the returned key (\<open>None\<close> is the null pointer), the iterator after the
  call and the contents of \<^verbatim>\<open>*returnData\<close> after the call.\<close>

definition symtabNext ::
    "hash_elem_it_s \<Rightarrow> voidp \<Rightarrow> error + (string option \<times> hash_elem_it_s \<times> voidp)" where
  "symtabNext it returnData =
     (case elem it of
        NULL \<Rightarrow> Inl NullDeref
      | Entry k v n \<Rightarrow>
          if n \<noteq> NULL then Inr (next_result (it\<lparr>elem := n\<rparr>) returnData)
          else
            (let idx = index it + 1
             in if idx \<ge> size_ht (ht it) then Inr (None, it\<lparr>index := idx\<rparr>, returnData)
                else
                  (case read_table (ht it) (uint idx) of
                     Inl e \<Rightarrow> Inl e
                   | Inr first \<Rightarrow>
                       (case find_loop (ht it) idx first of
                          Inl e \<Rightarrow> Inl e
                        | Inr (idx', el) \<Rightarrow>
                            Inr (next_result (it\<lparr>index := idx', elem := el\<rparr>) returnData)))))"

subsection \<open>What a table holds\<close>

text \<open>The nodes of a chain, as (key, value) pairs in chain order. A node whose key
  pointer is null has no key to show and is left out; \<open>all_keyed\<close> says that there is
  no such node.\<close>

fun chain_pairs :: "entry_ptr \<Rightarrow> (string \<times> voidp) list" where
  "chain_pairs NULL = []"
| "chain_pairs (Entry k v n) =
     (case k of None \<Rightarrow> chain_pairs n | Some s \<Rightarrow> (s, v) # chain_pairs n)"

fun all_keyed :: "entry_ptr \<Rightarrow> bool" where
  "all_keyed NULL = True"
| "all_keyed (Entry k v n) = (k \<noteq> None \<and> all_keyed n)"

fun chain_length :: "entry_ptr \<Rightarrow> nat" where
  "chain_length NULL = 0"
| "chain_length (Entry k v n) = Suc (chain_length n)"

definition chain_keys :: "entry_ptr \<Rightarrow> string list" where
  "chain_keys c = map fst (chain_pairs c)"

definition num_entries :: "hashtable_s \<Rightarrow> nat" where
  "num_entries hashtable = sum_list (map chain_length (table hashtable))"

text \<open>The order of keys that \<^verbatim>\<open>strcmp\<close> defines: \<open>a\<close> comes strictly before \<open>b\<close>.\<close>

definition key_less :: "string \<Rightarrow> string \<Rightarrow> bool" where
  "key_less a b = (strcmp a b < 0)"

definition sorted_chain :: "entry_ptr \<Rightarrow> bool" where
  "sorted_chain c = (all_keyed c \<and> sorted_wrt key_less (chain_keys c))"

text \<open>The chain that holds the given pairs, in their order.\<close>

definition chain_of :: "(string \<times> voidp) list \<Rightarrow> entry_ptr" where
  "chain_of ps = relink (map (\<lambda>(k, v). (Some k, v)) ps) NULL"

text \<open>The keys stored anywhere in the table.\<close>

definition table_keys :: "hashtable_s \<Rightarrow> string set" where
  "table_keys hashtable = (\<Union>c \<in> set (table hashtable). set (chain_keys c))"

text \<open>What \<^verbatim>\<open>symtabNext\<close> relies on: no node of the table, and no node after the
  cursor, has a null key pointer.\<close>

definition it_ok :: "hash_elem_it_s \<Rightarrow> bool" where
  "it_ok it = (list_all all_keyed (table (ht it)) \<and>
     (case elem it of NULL \<Rightarrow> True | Entry k v n \<Rightarrow> all_keyed n))"

text \<open>The representation invariant of a table: a positive size, a bucket array of that
  length, and in bucket \<open>i\<close> a strictly ascending chain of keys that hash to \<open>i\<close>.\<close>

definition bucket_ok :: "hashtable_s \<Rightarrow> nat \<Rightarrow> bool" where
  "bucket_ok hashtable i =
     (sorted_chain (table hashtable ! i) \<and>
      list_all (\<lambda>k. bucket_index hashtable k = Inr (int i)) (chain_keys (table hashtable ! i)))"

definition table_ok :: "hashtable_s \<Rightarrow> bool" where
  "table_ok hashtable =
     (1 \<le> sint (size_ht hashtable) \<and>
      length (table hashtable) = nat (sint (size_ht hashtable)) \<and>
      list_all (bucket_ok hashtable) [0 ..< length (table hashtable)])"

text \<open>The tables that the interface can produce: \<open>reachable K h\<close> when \<open>h\<close> came from
  \<^verbatim>\<open>symtabCreate\<close> followed by calls of \<^verbatim>\<open>symtabInstall\<close> that returned (with either
  return value), \<open>K\<close> being the keys those calls were given.\<close>

inductive reachable :: "string set \<Rightarrow> hashtable_s \<Rightarrow> bool" where
  created: "symtabCreate al sizeHint = (Some h, al') \<Longrightarrow> reachable {} h"
| installed: "reachable K h \<Longrightarrow> symtabInstall al h symbol data = Inr (r, al', h')
    \<Longrightarrow> reachable (insert symbol K) h'"

text \<open>The iterators that the interface can produce over such a table.\<close>

inductive iterating :: "hash_elem_it_s \<Rightarrow> bool" where
  fresh: "reachable K h \<Longrightarrow> symtabCreateIterator al h = Inr (Some it, al') \<Longrightarrow> iterating it"
| advanced: "iterating it \<Longrightarrow> symtabNext it returnData = Inr (r, it', returnData')
    \<Longrightarrow> iterating it'"

text \<open>The caller's loop of \<^verbatim>\<open>main.c\<close>:
  \<^verbatim>\<open>p = symtabNext(iterator, &out); while (p != NULL) { ...; p = symtabNext(iterator, &out); }\<close>
  with the pairs it sees collected in order. The fuel bounds the number of calls;
  \<open>None\<close> says that the fuel ran out before the loop ended.\<close>

fun drain :: "nat \<Rightarrow> hash_elem_it_s \<Rightarrow> voidp \<Rightarrow> (error + (string \<times> voidp) list) option" where
  "drain 0 it out = None"
| "drain (Suc fuel) it out =
     (case symtabNext it out of
        Inl e \<Rightarrow> Some (Inl e)
      | Inr (None, it', out') \<Rightarrow> Some (Inr [])
      | Inr (Some p, it', out') \<Rightarrow>
          (case drain fuel it' out' of
             None \<Rightarrow> None
           | Some (Inl e) \<Rightarrow> Some (Inl e)
           | Some (Inr ps) \<Rightarrow> Some (Inr ((p, out') # ps))))"

text \<open>The position of an iterator over \<open>h\<close>: its cursor is a node of bucket \<open>i\<close> (or the
  extra node in front of it) and \<open>rest\<close> is what follows the cursor in that chain.
  Bucket \<open>i\<close> is not empty, unless the whole table is empty and \<open>i\<close> is the last bucket.
  \<open>remaining\<close> are the pairs still to come from there.\<close>

definition it_at :: "hashtable_s \<Rightarrow> hash_elem_it_s \<Rightarrow> nat \<Rightarrow> entry_ptr \<Rightarrow> bool" where
  "it_at h it i rest =
     (ht it = h \<and> unat (index it) = i \<and> i < length (table h) \<and>
      (\<exists>k v. elem it = Entry k v rest) \<and> all_keyed rest \<and>
      (table h ! i \<noteq> NULL \<or>
       (Suc i = length (table h) \<and> list_all (\<lambda>c. c = NULL) (table h))))"

definition remaining :: "hashtable_s \<Rightarrow> nat \<Rightarrow> entry_ptr \<Rightarrow> (string \<times> voidp) list" where
  "remaining h i rest = chain_pairs rest @ concat (map chain_pairs (drop (Suc i) (table h)))"

text \<open>The tables whose last bucket is empty while the bucket before it is not.\<close>

definition past_end :: "hashtable_s \<Rightarrow> bool" where
  "past_end h = (2 \<le> length (table h) \<and> table h ! (length (table h) - 2) \<noteq> NULL
     \<and> table h ! (length (table h) - 1) = NULL)"

text \<open>An allocator that never fails; fresh memory holds a stray non-null pointer.\<close>

definition plenty :: allocator where
  "plenty = \<lparr>outcomes = [], junk_key = None, junk_value = 0, junk_next = Entry None 0 NULL\<rparr>"

section \<open>Properties\<close>

subsection \<open>symtabCreate\<close>

declare init_loop.simps [simp del]

lemma init_loop_inv:
  "0 \<le> i \<Longrightarrow> i \<le> n \<Longrightarrow> length tbl = nat n \<Longrightarrow> \<forall>j < nat i. tbl ! j = NULL
    \<Longrightarrow> init_loop tbl i n = replicate (nat n) NULL"
proof (induction tbl i n rule: init_loop.induct)
  case (1 tbl i sizeHint)
  show ?case
  proof (cases "i < sizeHint")
    case False
    with 1(3) have "i = sizeHint" by simp
    with 1(4,5) have "tbl = replicate (nat sizeHint) NULL"
      by (simp add: list_eq_iff_nth_eq)
    with False show ?thesis
      by (subst init_loop.simps) simp
  next
    case True
    have "\<forall>j < nat (i + 1). tbl[nat i := NULL] ! j = NULL"
    proof (intro allI impI)
      fix j assume "j < nat (i + 1)"
      with 1(2) have "j < nat i \<or> j = nat i" by auto
      with 1(2,4,5) True show "tbl[nat i := NULL] ! j = NULL"
        by (auto simp: nth_list_update)
    qed
    with 1 True have "init_loop (tbl[nat i := NULL]) (i + 1) sizeHint = replicate (nat sizeHint) NULL"
      by simp
    with True show ?thesis
      by (subst init_loop.simps) simp
  qed
qed

lemma init_loop_all:
  "0 \<le> n \<Longrightarrow> length tbl = nat n \<Longrightarrow> init_loop tbl 0 n = replicate (nat n) NULL"
  using init_loop_inv [of 0 n tbl] by simp

text \<open>
  C9. \<^verbatim>\<open>symtabCreate\<close> returns the null handle exactly when the size hint is below 1 or
  one of its two allocations (the table structure, then the bucket array) fails; a
  handle it returns is a table of the size asked for in which every bucket is empty,
  whatever the fresh bucket array held.
\<close>

theorem symtabCreate_spec:
  "(fst (symtabCreate al sizeHint) = None) =
     (sint sizeHint < 1 \<or> \<not> fst (malloc al) \<or> \<not> fst (malloc (snd (malloc al))))
   \<and> (\<forall>h. fst (symtabCreate al sizeHint) = Some h \<longrightarrow>
         h = \<lparr>size_ht = sizeHint, table = replicate (nat (sint sizeHint)) NULL\<rparr>)"
  by (auto simp: symtabCreate_def init_loop_all split: prod.splits bool.splits)

theorem symtabCreate_spec_witness:
  "fst (symtabCreate plenty 3) = Some \<lparr>size_ht = 3, table = [NULL, NULL, NULL]\<rparr>
   \<and> fst (symtabCreate plenty 0) = None
   \<and> fst (symtabCreate (plenty\<lparr>outcomes := [True, False]\<rparr>) 3) = None"
  using symtabCreate_spec [of plenty 3] symtabCreate_spec [of plenty 0]
    symtabCreate_spec [of "plenty\<lparr>outcomes := [True, False]\<rparr>" 3]
  by (auto simp: plenty_def malloc_def eval_nat_numeral)


subsection \<open>The order of keys\<close>

lemma strcmp_range: "strcmp a b = - 1 \<or> strcmp a b = 0 \<or> strcmp a b = 1"
  by (induction a b rule: strcmp.induct) auto

lemma strcmp_eq_0_iff: "strcmp a b = 0 \<longleftrightarrow> a = b"
  by (induction a b rule: strcmp.induct) auto

lemma strcmp_flip: "strcmp a b > 0 \<longleftrightarrow> strcmp b a < 0"
  by (induction a b rule: strcmp.induct) (auto simp: not_less le_less)

lemma strcmp_trans: "strcmp a b < 0 \<Longrightarrow> strcmp b c < 0 \<Longrightarrow> strcmp a c < 0"
proof (induction a b arbitrary: c rule: strcmp.induct)
  case 1
  then show ?case by simp
next
  case (2 y ys)
  then show ?case by (cases c) (auto split: if_splits)
next
  case (3 x xs)
  then show ?case by simp
next
  case (4 x xs y ys)
  then show ?case
    by (cases c) (auto split: if_splits)
qed

lemma key_less_irrefl: "\<not> key_less a a"
  by (simp add: key_less_def strcmp_eq_0_iff [THEN iffD2])

lemma key_less_trans: "key_less a b \<Longrightarrow> key_less b c \<Longrightarrow> key_less a c"
  unfolding key_less_def by (rule strcmp_trans)

text \<open>\<open>key_less\<close> is the lexicographic order of the bytes read as unsigned numbers.\<close>

lemma key_less_lexord:
  "key_less a b \<longleftrightarrow> (a, b) \<in> lexord {(x, y). (of_char x :: nat) < of_char y}"
  unfolding key_less_def
  by (induction a b rule: strcmp.induct) (auto simp: not_less le_less)

subsection \<open>Scanning and relinking a chain\<close>

lemma relink_append: "relink (p @ q) n = relink p (relink q n)"
  by (induction p) auto

lemma chain_length_relink: "chain_length (relink p n) = length p + chain_length n"
  by (induction p) auto

lemma chain_pairs_relink:
  "chain_pairs (relink (map (\<lambda>(k, v). (Some k, v)) ps) n) = ps @ chain_pairs n"
  by (induction ps) auto

lemma all_keyed_relink:
  "all_keyed (relink (map (\<lambda>(k, v). (Some k, v)) ps) n) = all_keyed n"
  by (induction ps) auto

lemma scan_fst:
  "all_keyed c \<Longrightarrow> fst (scan symbol passed c) =
     passed @ map (\<lambda>(k, v). (Some k, v)) (takeWhile (\<lambda>(k, v). strcmp symbol k > 0) (chain_pairs c))"
  by (induction c arbitrary: passed) auto

lemma scan_snd_pairs:
  "all_keyed c \<Longrightarrow> chain_pairs (snd (scan symbol passed c)) =
     dropWhile (\<lambda>(k, v). strcmp symbol k > 0) (chain_pairs c)"
  by (induction c arbitrary: passed) auto

lemma scan_snd_keyed: "all_keyed c \<Longrightarrow> all_keyed (snd (scan symbol passed c))"
  by (induction c arbitrary: passed) auto

lemma scan_relink: "relink (fst (scan symbol passed c)) (snd (scan symbol passed c)) = relink passed c"
  by (induction c arbitrary: passed) (auto simp: relink_append split: option.splits)

lemma scan_stop: "snd (scan symbol passed c) = Entry (Some s) v n \<Longrightarrow> \<not> strcmp symbol s > 0"
  by (induction c arbitrary: passed) (auto split: option.splits if_splits)

lemma scan_head_iff:
  "snd (scan symbol [] c) = c \<longleftrightarrow> fst (scan symbol [] c) = []"
proof
  assume "snd (scan symbol [] c) = c"
  then have "relink (fst (scan symbol [] c)) c = c"
    using scan_relink [of symbol "[]" c] by simp
  then have "chain_length (relink (fst (scan symbol [] c)) c) = chain_length c"
    by simp
  then show "fst (scan symbol [] c) = []"
    by (simp add: chain_length_relink)
next
  assume "fst (scan symbol [] c) = []"
  then show "snd (scan symbol [] c) = c"
    using scan_relink [of symbol "[]" c] by simp
qed

lemma found_iff: "all_keyed n \<Longrightarrow> found symbol n \<longleftrightarrow> (\<exists>v m. n = Entry (Some symbol) v m)"
  by (cases n) (auto simp: strcmp_eq_0_iff)

lemma strcmp_refl: "strcmp a a = 0"
  by (simp add: strcmp_eq_0_iff)

lemma map_upd_other:
  "\<forall>p \<in> set ps. fst p \<noteq> symbol \<Longrightarrow>
     map (\<lambda>(k, v). if k = symbol then (k, data) else (k, v)) ps = ps"
  by (induction ps) auto

lemma takeWhile_keys_differ:
  "\<forall>p \<in> set (takeWhile (\<lambda>(k, v). strcmp symbol k > 0) ps). fst p \<noteq> symbol"
proof
  fix p assume "p \<in> set (takeWhile (\<lambda>(k, v). strcmp symbol k > 0) ps)"
  then have "strcmp symbol (fst p) > 0"
    by (auto dest: set_takeWhileD)
  then show "fst p \<noteq> symbol"
    using strcmp_refl [of symbol] by auto
qed

text \<open>Where the scan stops in a sorted chain that holds the key.\<close>

lemma scan_finds:
  assumes sc: "sorted_chain head" and mem: "symbol \<in> set (chain_keys head)"
  shows "\<exists>v m. snd (scan symbol [] head) = Entry (Some symbol) v m
      \<and> (\<forall>p \<in> set (chain_pairs m). fst p \<noteq> symbol)"
proof -
  let ?P = "\<lambda>(k :: string, v :: voidp). strcmp symbol k > 0"
  let ?ps = "chain_pairs head"
  let ?n = "snd (scan symbol [] head)"
  from sc have ak: "all_keyed head" and so: "sorted_wrt key_less (map fst ?ps)"
    by (simp_all add: sorted_chain_def chain_keys_def)
  have split: "?ps = takeWhile ?P ?ps @ dropWhile ?P ?ps" by simp
  have dn: "chain_pairs ?n = dropWhile ?P ?ps"
    using ak by (rule scan_snd_pairs)
  have akn: "all_keyed ?n" using ak by (rule scan_snd_keyed)
  from mem have "symbol \<in> fst ` set ?ps" by (simp add: chain_keys_def)
  then have "symbol \<in> fst ` set (takeWhile ?P ?ps) \<or> symbol \<in> fst ` set (dropWhile ?P ?ps)"
    by (subst (asm) split) (auto simp del: takeWhile_dropWhile_id)
  with takeWhile_keys_differ [of symbol ?ps] have in_n: "symbol \<in> fst ` set (chain_pairs ?n)"
    by (auto simp: dn)
  then obtain k v m where n: "?n = Entry k v m" by (cases ?n) auto
  with akn obtain s where k: "k = Some s" by auto
  have stop: "\<not> strcmp symbol s > 0"
    using n k scan_stop [of symbol "[]" head s v m] by simp
  have "sorted_wrt key_less (map fst (takeWhile ?P ?ps) @ map fst (dropWhile ?P ?ps))"
    using so by (subst (asm) split) (simp del: takeWhile_dropWhile_id)
  then have "sorted_wrt key_less (map fst (chain_pairs ?n))"
    by (simp add: sorted_wrt_append dn)
  with n k have later: "\<forall>p \<in> set (chain_pairs m). key_less s (fst p)"
    by auto
  have "s = symbol"
  proof (rule ccontr)
    assume ne: "s \<noteq> symbol"
    with stop have "strcmp symbol s < 0"
      using strcmp_eq_0_iff [of symbol s] by auto
    then have ks: "key_less symbol s" by (simp add: key_less_def)
    have "\<forall>p \<in> set (chain_pairs m). fst p \<noteq> symbol"
    proof
      fix p assume "p \<in> set (chain_pairs m)"
      with later have "key_less s (fst p)" by simp
      with ks have "key_less symbol (fst p)" by (rule key_less_trans)
      then show "fst p \<noteq> symbol" using key_less_irrefl by auto
    qed
    with in_n n k ne show False by auto
  qed
  moreover have "\<forall>p \<in> set (chain_pairs m). fst p \<noteq> symbol"
  proof
    fix p assume "p \<in> set (chain_pairs m)"
    with later have "key_less s (fst p)" by simp
    with \<open>s = symbol\<close> show "fst p \<noteq> symbol" using key_less_irrefl by auto
  qed
  ultimately show ?thesis using n k by simp
qed

lemma symtabInstall_update:
  assumes bi: "bucket_index h symbol = Inr bin" and rd: "read_table h bin = Inr head"
    and sc: "sorted_chain head" and mem: "symbol \<in> set (chain_keys head)"
  shows "\<exists>c'. symtabInstall al h symbol data = Inr (1, al, h\<lparr>table := (table h)[nat bin := c']\<rparr>)
      \<and> all_keyed c'
      \<and> chain_pairs c' =
          map (\<lambda>(k, v). if k = symbol then (k, data) else (k, v)) (chain_pairs head)"
proof -
  let ?P = "\<lambda>(k :: string, v :: voidp). strcmp symbol k > 0"
  let ?ps = "chain_pairs head"
  let ?p = "fst (scan symbol [] head)"
  let ?n = "snd (scan symbol [] head)"
  from sc have ak: "all_keyed head" by (simp add: sorted_chain_def)
  from scan_finds [OF sc mem] obtain v m where
    n: "?n = Entry (Some symbol) v m" and rest: "\<forall>p \<in> set (chain_pairs m). fst p \<noteq> symbol"
    by blast
  have p: "?p = map (\<lambda>(k, v). (Some k, v)) (takeWhile ?P ?ps)"
    using scan_fst [OF ak, of symbol "[]"] by simp
  have dn: "dropWhile ?P ?ps = (symbol, v) # chain_pairs m"
    using scan_snd_pairs [OF ak, of symbol "[]"] n by simp
  have akn: "all_keyed m"
    using scan_snd_keyed [OF ak, of symbol "[]"] n by simp
  let ?c = "relink ?p (Entry (Some symbol) data m)"
  have run: "symtabInstall al h symbol data = Inr (1, al, h\<lparr>table := (table h)[nat bin := ?c]\<rparr>)"
    using bi rd n by (simp add: symtabInstall_def strcmp_refl case_prod_beta)
  have keyed: "all_keyed ?c"
    using akn by (simp add: p all_keyed_relink)
  have "map (\<lambda>(k, v). if k = symbol then (k, data) else (k, v)) (takeWhile ?P ?ps @ dropWhile ?P ?ps)
      = takeWhile ?P ?ps @ (symbol, data) # chain_pairs m"
    using map_upd_other [OF takeWhile_keys_differ, of symbol data ?ps]
      map_upd_other [OF rest, of data]
    by (simp add: dn del: takeWhile_dropWhile_id)
  then have "chain_pairs ?c = map (\<lambda>(k, v). if k = symbol then (k, data) else (k, v)) ?ps"
    by (simp add: p chain_pairs_relink)
  with run keyed show ?thesis by blast
qed

lemma symtabInstall_insert_chain:
  assumes bi: "bucket_index h symbol = Inr bin" and rd: "read_table h bin = Inr head"
    and nf: "\<not> found symbol (snd (scan symbol [] head))"
    and m1: "malloc al = (True, al1)" and m2: "malloc al1 = (True, al2)"
  shows "symtabInstall al h symbol data =
     Inr (1, al2, h\<lparr>table := (table h)[nat bin :=
        relink (fst (scan symbol [] head)) (Entry (Some symbol) data (snd (scan symbol [] head)))]\<rparr>)"
proof (cases "snd (scan symbol [] head) = head")
  case True
  then have "fst (scan symbol [] head) = []" by (simp add: scan_head_iff)
  with True show ?thesis
    using bi rd nf m1 m2 by (simp add: symtabInstall_def case_prod_beta)
next
  case False
  then have "fst (scan symbol [] head) \<noteq> []" by (simp add: scan_head_iff)
  with False show ?thesis
    using bi rd nf m1 m2 by (simp add: symtabInstall_def case_prod_beta set_last_next_def)
qed

lemma symtabInstall_insert:
  assumes bi: "bucket_index h symbol = Inr bin" and rd: "read_table h bin = Inr head"
    and ak: "all_keyed head" and nmem: "symbol \<notin> set (chain_keys head)"
    and m1: "malloc al = (True, al1)" and m2: "malloc al1 = (True, al2)"
  shows "\<exists>c'. symtabInstall al h symbol data = Inr (1, al2, h\<lparr>table := (table h)[nat bin := c']\<rparr>)
      \<and> all_keyed c'
      \<and> chain_pairs c' =
          takeWhile (\<lambda>(k, v). strcmp symbol k > 0) (chain_pairs head) @ (symbol, data)
            # dropWhile (\<lambda>(k, v). strcmp symbol k > 0) (chain_pairs head)"
proof -
  let ?P = "\<lambda>(k :: string, v :: voidp). strcmp symbol k > 0"
  let ?ps = "chain_pairs head"
  let ?p = "fst (scan symbol [] head)"
  let ?n = "snd (scan symbol [] head)"
  have p: "?p = map (\<lambda>(k, v). (Some k, v)) (takeWhile ?P ?ps)"
    using scan_fst [OF ak, of symbol "[]"] by simp
  have dn: "chain_pairs ?n = dropWhile ?P ?ps"
    using ak by (rule scan_snd_pairs)
  have akn: "all_keyed ?n" using ak by (rule scan_snd_keyed)
  have nf: "\<not> found symbol ?n"
  proof
    assume "found symbol ?n"
    with akn obtain v m where "?n = Entry (Some symbol) v m"
      by (auto simp: found_iff)
    with dn have "dropWhile ?P ?ps = (symbol, v) # chain_pairs m" by simp
    then have "(symbol, v) \<in> set (dropWhile ?P ?ps)" by simp
    then have "(symbol, v) \<in> set ?ps" by (rule set_dropWhileD)
    with nmem show False by (force simp: chain_keys_def)
  qed
  let ?c = "relink ?p (Entry (Some symbol) data ?n)"
  have "symtabInstall al h symbol data = Inr (1, al2, h\<lparr>table := (table h)[nat bin := ?c]\<rparr>)"
    using bi rd nf m1 m2 by (rule symtabInstall_insert_chain)
  moreover have "all_keyed ?c"
    using akn by (simp add: p all_keyed_relink)
  moreover have "chain_pairs ?c = takeWhile ?P ?ps @ (symbol, data) # dropWhile ?P ?ps"
    by (simp add: p chain_pairs_relink dn)
  ultimately show ?thesis by blast
qed

text \<open>What a call that returns has returned: 1 with a table of the same shape, or 0
  after a failed first allocation with the table untouched.\<close>

lemma symtabInstall_returns:
  assumes "symtabInstall al h symbol data = Inr (r, al', h')"
  shows "(r = 1 \<and> length (table h') = length (table h) \<and> size_ht h' = size_ht h)
     \<or> (r = 0 \<and> \<not> fst (malloc al) \<and> h' = h)"
  using assms
  by (auto simp: symtabInstall_def case_prod_beta split: sum.splits if_splits prod.splits bool.splits)

subsection \<open>The bucket of a key\<close>

lemma sint_small:
  assumes "uint (w :: 32 word) < 2 ^ 31"
  shows "sint w = uint w"
proof -
  have "- (2 ^ 31) \<le> (0 :: int)" by simp
  also have "0 \<le> uint w" by simp
  finally have "signed_take_bit 31 (uint w) = uint w"
    using assms by (rule signed_take_bit_int_eq_self)
  then show ?thesis by (simp add: sint_uint)
qed

lemma uint_of_pos_sint:
  assumes "0 \<le> sint (w :: 32 word)"
  shows "uint w = sint w"
proof -
  have "sint w < 2 ^ 32"
    using sint_lt [of w] by simp
  with assms have "take_bit 32 (sint w) = sint w"
    by (intro take_bit_int_eq_self)
  then show ?thesis
    using uint_sint [of w] by simp
qed

lemma hash_mod:
  assumes "size_ht h \<noteq> 0"
  shows "\<exists>x. hash h k = Inr (x mod size_ht h)"
  unfolding hash_def Let_def
  by (subst if_not_P, rule assms, rule exI, rule refl)

lemma hash_size:
  assumes "size_ht h' = size_ht h"
  shows "hash h' k = hash h k"
  unfolding hash_def assms by (rule refl)

lemma bucket_index_range:
  assumes "1 \<le> sint (size_ht h)"
  shows "\<exists>bin. bucket_index h k = Inr bin \<and> 0 \<le> bin \<and> bin < sint (size_ht h)"
proof -
  have nz: "size_ht h \<noteq> 0"
  proof
    assume "size_ht h = 0"
    then have "sint (size_ht h) = 0" by simp
    with assms show False by simp
  qed
  have us: "uint (size_ht h) = sint (size_ht h)"
    by (rule uint_of_pos_sint) (use assms in linarith)
  have lim: "sint (size_ht h) < 2 ^ 31"
    using sint_lt [of "size_ht h"] by simp
  obtain x where hx: "hash h k = Inr (x mod size_ht h)"
    using hash_mod [OF nz] by blast
  have pos: "0 < uint (size_ht h)"
    using us assms by linarith
  have "uint (x mod size_ht h) = uint x mod uint (size_ht h)"
    by (rule uint_mod)
  also have "\<dots> < uint (size_ht h)"
    using pos by (rule pos_mod_bound)
  finally have lt: "uint (x mod size_ht h) < uint (size_ht h)" .
  then have "uint (x mod size_ht h) < 2 ^ 31"
    using us lim by linarith
  then have "sint (x mod size_ht h) = uint (x mod size_ht h)"
    by (rule sint_small)
  moreover have "0 \<le> uint (x mod size_ht h)" by simp
  ultimately have "0 \<le> sint (x mod size_ht h) \<and> sint (x mod size_ht h) < sint (size_ht h)"
    using lt us by linarith
  with hx show ?thesis
    by (simp add: bucket_index_def)
qed

lemma bucket_index_size:
  "size_ht h' = size_ht h \<Longrightarrow> bucket_index h' k = bucket_index h k"
  using hash_size [of h' h k] by (simp add: bucket_index_def)

lemma table_ok_nth:
  "table_ok h \<longleftrightarrow> 1 \<le> sint (size_ht h) \<and> length (table h) = nat (sint (size_ht h))
     \<and> (\<forall>i < length (table h). bucket_ok h i)"
  by (auto simp: table_ok_def list_all_iff)

lemma table_ok_bucket:
  assumes "table_ok h"
  shows "\<exists>bin. bucket_index h k = Inr (int bin) \<and> bin < length (table h)
     \<and> read_table h (int bin) = Inr (table h ! bin)"
proof -
  from assms have s: "1 \<le> sint (size_ht h)" and l: "length (table h) = nat (sint (size_ht h))"
    by (simp_all add: table_ok_nth)
  from bucket_index_range [OF s, of k] obtain b where
    b: "bucket_index h k = Inr b" "0 \<le> b" "b < sint (size_ht h)" by blast
  define bin where "bin = nat b"
  with b have ib: "int bin = b" by simp
  have lt: "bin < length (table h)"
    using b l by (simp add: bin_def)
  have "read_table h (int bin) = Inr (table h ! bin)"
    using lt by (simp add: read_table_def)
  with b(1) ib lt show ?thesis by blast
qed

subsection \<open>symtabInstall on a table that satisfies the invariant\<close>

lemma chain_pairs_chain_of: "chain_pairs (chain_of ps) = ps"
  by (simp add: chain_of_def chain_pairs_relink)

lemma all_keyed_chain_of: "all_keyed (chain_of ps)"
  by (simp add: chain_of_def all_keyed_relink)

lemma chain_of_chain_pairs: "all_keyed c \<Longrightarrow> chain_of (chain_pairs c) = c"
  by (induction c) (auto simp: chain_of_def)

lemma chain_length_pairs: "all_keyed c \<Longrightarrow> chain_length c = length (chain_pairs c)"
  by (induction c) auto

lemma key_less_flip: "strcmp symbol k > 0 \<longleftrightarrow> key_less k symbol"
  by (simp add: key_less_def strcmp_flip)

lemma not_before_after:
  "\<not> strcmp symbol k > 0 \<Longrightarrow> symbol \<noteq> k \<Longrightarrow> key_less symbol k"
  using strcmp_eq_0_iff [of symbol k] by (auto simp: key_less_def)

lemma sorted_insert_keys:
  "sorted_wrt key_less (map fst ps) \<Longrightarrow> symbol \<notin> fst ` set ps \<Longrightarrow>
   sorted_wrt key_less (map fst (takeWhile (\<lambda>(k, v). strcmp symbol k > 0) ps) @ symbol
      # map fst (dropWhile (\<lambda>(k, v). strcmp symbol k > 0) ps))"
proof (induction ps)
  case Nil
  then show ?case by simp
next
  case (Cons p ps)
  obtain k v where p: "p = (k, v)" by (cases p)
  show ?case
  proof (cases "strcmp symbol k > 0")
    case True
    then have "key_less k symbol" by (simp add: key_less_flip)
    moreover have "\<forall>x \<in> set ps. key_less k (fst x)"
      using Cons.prems(1) p by auto
    moreover have "set (takeWhile (\<lambda>(k, v). strcmp symbol k > 0) ps) \<subseteq> set ps"
      "set (dropWhile (\<lambda>(k, v). strcmp symbol k > 0) ps) \<subseteq> set ps"
      by (auto dest: set_takeWhileD set_dropWhileD)
    ultimately show ?thesis
      using Cons p True by (auto simp: sorted_wrt_append)
  next
    case False
    with Cons.prems(2) p have ks: "key_less symbol k"
      by (auto intro: not_before_after)
    moreover have "\<forall>x \<in> set ps. key_less k (fst x)"
      using Cons.prems(1) p by auto
    ultimately have "\<forall>x \<in> set ps. key_less symbol (fst x)"
      by (blast intro: key_less_trans)
    with ks Cons.prems(1) p False show ?thesis by auto
  qed
qed

lemma symtabInstall_cases:
  assumes ok: "table_ok h"
  obtains bin where "bucket_index h symbol = Inr (int bin)" and "bin < length (table h)"
    and "symbol \<in> set (chain_keys (table h ! bin)) \<Longrightarrow>
      symtabInstall al h symbol data = Inr (1, al, h\<lparr>table := (table h)[bin :=
        chain_of (map (\<lambda>(k, v). if k = symbol then (k, data) else (k, v))
          (chain_pairs (table h ! bin)))]\<rparr>)"
    and "\<And>al1 al2. symbol \<notin> set (chain_keys (table h ! bin)) \<Longrightarrow>
      malloc al = (True, al1) \<Longrightarrow> malloc al1 = (True, al2) \<Longrightarrow>
      symtabInstall al h symbol data = Inr (1, al2, h\<lparr>table := (table h)[bin :=
        chain_of (takeWhile (\<lambda>(k, v). strcmp symbol k > 0) (chain_pairs (table h ! bin))
          @ (symbol, data)
          # dropWhile (\<lambda>(k, v). strcmp symbol k > 0) (chain_pairs (table h ! bin)))]\<rparr>)"
proof -
  from table_ok_bucket [OF ok, of symbol] obtain bin where
    bi: "bucket_index h symbol = Inr (int bin)" and lt: "bin < length (table h)"
    and rd: "read_table h (int bin) = Inr (table h ! bin)" by blast
  from ok lt have sc: "sorted_chain (table h ! bin)"
    by (simp add: table_ok_nth bucket_ok_def)
  then have ak: "all_keyed (table h ! bin)" by (simp add: sorted_chain_def)
  show thesis
  proof (rule that [OF bi lt])
    assume mem: "symbol \<in> set (chain_keys (table h ! bin))"
    from symtabInstall_update [OF bi rd sc mem, of al data] obtain c' where
      c': "symtabInstall al h symbol data = Inr (1, al, h\<lparr>table := (table h)[nat (int bin) := c']\<rparr>)"
        "all_keyed c'"
        "chain_pairs c' = map (\<lambda>(k, v). if k = symbol then (k, data) else (k, v))
           (chain_pairs (table h ! bin))"
      by blast
    from c'(2,3) have "c' = chain_of (map (\<lambda>(k, v). if k = symbol then (k, data) else (k, v))
           (chain_pairs (table h ! bin)))"
      using chain_of_chain_pairs [of c'] by simp
    with c'(1) show "symtabInstall al h symbol data = Inr (1, al, h\<lparr>table := (table h)[bin :=
        chain_of (map (\<lambda>(k, v). if k = symbol then (k, data) else (k, v))
          (chain_pairs (table h ! bin)))]\<rparr>)"
      by simp
  next
    fix al1 al2
    assume nmem: "symbol \<notin> set (chain_keys (table h ! bin))"
      and m1: "malloc al = (True, al1)" and m2: "malloc al1 = (True, al2)"
    from symtabInstall_insert [OF bi rd ak nmem m1 m2, of data] obtain c' where
      c': "symtabInstall al h symbol data = Inr (1, al2, h\<lparr>table := (table h)[nat (int bin) := c']\<rparr>)"
        "all_keyed c'"
        "chain_pairs c' = takeWhile (\<lambda>(k, v). strcmp symbol k > 0) (chain_pairs (table h ! bin))
          @ (symbol, data)
          # dropWhile (\<lambda>(k, v). strcmp symbol k > 0) (chain_pairs (table h ! bin))"
      by blast
    from c'(2,3) have "c' = chain_of (takeWhile (\<lambda>(k, v). strcmp symbol k > 0) (chain_pairs (table h ! bin))
          @ (symbol, data)
          # dropWhile (\<lambda>(k, v). strcmp symbol k > 0) (chain_pairs (table h ! bin)))"
      using chain_of_chain_pairs [of c'] by simp
    with c'(1) show "symtabInstall al h symbol data = Inr (1, al2, h\<lparr>table := (table h)[bin :=
        chain_of (takeWhile (\<lambda>(k, v). strcmp symbol k > 0) (chain_pairs (table h ! bin))
          @ (symbol, data)
          # dropWhile (\<lambda>(k, v). strcmp symbol k > 0) (chain_pairs (table h ! bin)))]\<rparr>)"
      by simp
  qed
qed

lemma symtabInstall_absent_no_node:
  assumes bi: "bucket_index h symbol = Inr bin" and rd: "read_table h bin = Inr head"
    and ak: "all_keyed head" and nmem: "symbol \<notin> set (chain_keys head)"
    and m1: "malloc al = (False, al1)"
  shows "symtabInstall al h symbol data = Inr (0, al1, h)"
proof -
  have akn: "all_keyed (snd (scan symbol [] head))" using ak by (rule scan_snd_keyed)
  have "\<not> found symbol (snd (scan symbol [] head))"
  proof
    assume "found symbol (snd (scan symbol [] head))"
    with akn obtain v m where "snd (scan symbol [] head) = Entry (Some symbol) v m"
      by (auto simp: found_iff)
    then have "dropWhile (\<lambda>(k, v). strcmp symbol k > 0) (chain_pairs head) = (symbol, v) # chain_pairs m"
      using scan_snd_pairs [OF ak, of symbol "[]"] by simp
    then have "(symbol, v) \<in> set (dropWhile (\<lambda>(k, v). strcmp symbol k > 0) (chain_pairs head))" by simp
    then have "(symbol, v) \<in> set (chain_pairs head)" by (rule set_dropWhileD)
    with nmem show False by (force simp: chain_keys_def)
  qed
  then show ?thesis
    using bi rd m1 by (simp add: symtabInstall_def case_prod_beta)
qed

lemma symtabInstall_absent_no_key:
  assumes bi: "bucket_index h symbol = Inr bin" and rd: "read_table h bin = Inr head"
    and ak: "all_keyed head" and nmem: "symbol \<notin> set (chain_keys head)"
    and m1: "malloc al = (True, al1)" and m2: "malloc al1 = (False, al2)"
  shows "symtabInstall al h symbol data = Inl NullDeref"
proof -
  have akn: "all_keyed (snd (scan symbol [] head))" using ak by (rule scan_snd_keyed)
  have "\<not> found symbol (snd (scan symbol [] head))"
  proof
    assume "found symbol (snd (scan symbol [] head))"
    with akn obtain v m where "snd (scan symbol [] head) = Entry (Some symbol) v m"
      by (auto simp: found_iff)
    then have "dropWhile (\<lambda>(k, v). strcmp symbol k > 0) (chain_pairs head) = (symbol, v) # chain_pairs m"
      using scan_snd_pairs [OF ak, of symbol "[]"] by simp
    then have "(symbol, v) \<in> set (dropWhile (\<lambda>(k, v). strcmp symbol k > 0) (chain_pairs head))" by simp
    then have "(symbol, v) \<in> set (chain_pairs head)" by (rule set_dropWhileD)
    with nmem show False by (force simp: chain_keys_def)
  qed
  then show ?thesis
    using bi rd m1 m2 by (simp add: symtabInstall_def case_prod_beta)
qed

text \<open>The table after a bucket has been given a new chain.\<close>

lemma table_keys_nth:
  "table_keys h = (\<Union>i \<in> {..< length (table h)}. set (chain_keys (table h ! i)))"
  by (auto simp: table_keys_def set_conv_nth)

lemma table_keys_update:
  assumes lt: "bin < length (table h)"
    and keys: "set (chain_keys c') = S \<union> set (chain_keys (table h ! bin))"
  shows "table_keys (h\<lparr>table := (table h)[bin := c']\<rparr>) = S \<union> table_keys h"
proof -
  have "table_keys (h\<lparr>table := (table h)[bin := c']\<rparr>)
      = (\<Union>i \<in> {..< length (table h)}. set (chain_keys ((table h)[bin := c'] ! i)))"
    by (simp add: table_keys_nth)
  also have "\<dots> = (\<Union>i \<in> {..< length (table h)}.
      (if i = bin then S else {}) \<union> set (chain_keys (table h ! i)))"
    using keys by (intro SUP_cong) (auto simp: nth_list_update)
  also have "\<dots> = S \<union> table_keys h"
    using lt by (auto simp: table_keys_nth split: if_splits)
  finally show ?thesis .
qed

lemma num_entries_update:
  assumes lt: "bin < length (table h)"
  shows "num_entries (h\<lparr>table := (table h)[bin := c']\<rparr>) + chain_length (table h ! bin)
      = num_entries h + chain_length c'"
proof -
  let ?xs = "map chain_length (table h)"
  have l: "bin < length ?xs" using lt by simp
  have "?xs ! bin \<in> set ?xs"
    using l by (rule nth_mem)
  then have "?xs ! bin \<le> sum_list ?xs"
    by (rule member_le_sum_list) simp
  moreover have "sum_list (?xs[bin := chain_length c']) = sum_list ?xs + chain_length c' - ?xs ! bin"
    using l by (rule sum_list_update)
  ultimately show ?thesis
    using lt by (simp add: num_entries_def map_update)
qed

lemma table_ok_update:
  assumes ok: "table_ok h" and lt: "bin < length (table h)"
    and bi: "bucket_index h symbol = Inr (int bin)"
    and sc: "sorted_chain c'"
    and keys: "set (chain_keys c') \<subseteq> insert symbol (set (chain_keys (table h ! bin)))"
  shows "table_ok (h\<lparr>table := (table h)[bin := c']\<rparr>)"
proof -
  let ?h' = "h\<lparr>table := (table h)[bin := c']\<rparr>"
  have same: "\<And>k. bucket_index ?h' k = bucket_index h k"
    by (rule bucket_index_size) simp
  have "bucket_ok ?h' i" if i: "i < length (table h)" for i
  proof (cases "i = bin")
    case True
    from ok lt have "list_all (\<lambda>k. bucket_index h k = Inr (int bin)) (chain_keys (table h ! bin))"
      by (simp add: table_ok_nth bucket_ok_def)
    with keys bi have "list_all (\<lambda>k. bucket_index h k = Inr (int bin)) (chain_keys c')"
      by (auto simp: list_all_iff)
    with True sc lt show ?thesis
      by (simp add: bucket_ok_def same)
  next
    case False
    with ok i show ?thesis
      by (simp add: table_ok_nth bucket_ok_def same)
  qed
  with ok show ?thesis
    by (simp add: table_ok_nth)
qed

lemma absent_everywhere:
  assumes ok: "table_ok h" and lt: "bin < length (table h)"
    and bi: "bucket_index h symbol = Inr (int bin)"
    and nmem: "symbol \<notin> set (chain_keys (table h ! bin))"
  shows "symbol \<notin> table_keys h"
proof
  assume "symbol \<in> table_keys h"
  then obtain i where i: "i < length (table h)" "symbol \<in> set (chain_keys (table h ! i))"
    by (auto simp: table_keys_nth)
  with ok have "bucket_index h symbol = Inr (int i)"
    by (auto simp: table_ok_nth bucket_ok_def list_all_iff)
  with bi have "i = bin" by simp
  with i nmem show False by simp
qed

lemma symtabInstall_failures:
  assumes ok: "table_ok h" and bi: "bucket_index h symbol = Inr (int bin)"
    and lt: "bin < length (table h)"
    and nmem: "symbol \<notin> set (chain_keys (table h ! bin))"
  shows "malloc al = (False, al1) \<Longrightarrow> symtabInstall al h symbol data = Inr (0, al1, h)"
    and "malloc al = (True, al1) \<Longrightarrow> malloc al1 = (False, al2) \<Longrightarrow>
      symtabInstall al h symbol data = Inl NullDeref"
proof -
  from lt have rd: "read_table h (int bin) = Inr (table h ! bin)"
    by (simp add: read_table_def)
  from ok lt have ak: "all_keyed (table h ! bin)"
    by (simp add: table_ok_nth bucket_ok_def sorted_chain_def)
  show "malloc al = (False, al1) \<Longrightarrow> symtabInstall al h symbol data = Inr (0, al1, h)"
    using bi rd ak nmem by (rule symtabInstall_absent_no_node)
  show "malloc al = (True, al1) \<Longrightarrow> malloc al1 = (False, al2) \<Longrightarrow>
      symtabInstall al h symbol data = Inl NullDeref"
    using bi rd ak nmem by (rule symtabInstall_absent_no_key)
qed

lemma chain_length_chain_of: "chain_length (chain_of ps) = length ps"
  by (simp add: chain_length_pairs all_keyed_chain_of chain_pairs_chain_of)

lemma chain_keys_chain_of: "chain_keys (chain_of ps) = map fst ps"
  by (simp add: chain_keys_def chain_pairs_chain_of)

lemma sorted_chain_chain_of: "sorted_chain (chain_of ps) = sorted_wrt key_less (map fst ps)"
  by (simp add: sorted_chain_def all_keyed_chain_of chain_keys_chain_of)

lemma map_fst_upd:
  "map fst (map (\<lambda>(k, v). if k = symbol then (k, data) else (k, v)) ps) = map fst ps"
  by (induction ps) auto

lemma install_step:
  assumes ok: "table_ok h" and fin: "finite (table_keys h)"
    and cnt: "num_entries h = card (table_keys h)"
    and run: "symtabInstall al h symbol data = Inr (r, al', h')"
  shows "table_ok h' \<and> table_keys h' \<subseteq> insert symbol (table_keys h)
    \<and> num_entries h' = card (table_keys h')"
proof -
  from symtabInstall_cases [OF ok, of symbol al data] obtain bin where
    bi: "bucket_index h symbol = Inr (int bin)" and lt: "bin < length (table h)"
    and upd: "symbol \<in> set (chain_keys (table h ! bin)) \<Longrightarrow>
      symtabInstall al h symbol data = Inr (1, al, h\<lparr>table := (table h)[bin :=
        chain_of (map (\<lambda>(k, v). if k = symbol then (k, data) else (k, v))
          (chain_pairs (table h ! bin)))]\<rparr>)"
    and ins: "\<And>al1 al2. symbol \<notin> set (chain_keys (table h ! bin)) \<Longrightarrow>
      malloc al = (True, al1) \<Longrightarrow> malloc al1 = (True, al2) \<Longrightarrow>
      symtabInstall al h symbol data = Inr (1, al2, h\<lparr>table := (table h)[bin :=
        chain_of (takeWhile (\<lambda>(k, v). strcmp symbol k > 0) (chain_pairs (table h ! bin))
          @ (symbol, data)
          # dropWhile (\<lambda>(k, v). strcmp symbol k > 0) (chain_pairs (table h ! bin)))]\<rparr>)"
    by blast
  let ?c = "table h ! bin"
  let ?ps = "chain_pairs ?c"
  from ok lt have sc: "sorted_chain ?c"
    by (simp add: table_ok_nth bucket_ok_def)
  then have ak: "all_keyed ?c" and so: "sorted_wrt key_less (map fst ?ps)"
    by (simp_all add: sorted_chain_def chain_keys_def)
  show ?thesis
  proof (cases "symbol \<in> set (chain_keys ?c)")
    case True
    let ?c' = "chain_of (map (\<lambda>(k, v). if k = symbol then (k, data) else (k, v)) ?ps)"
    from upd [OF True] run have h': "h' = h\<lparr>table := (table h)[bin := ?c']\<rparr>" by simp
    have keys: "chain_keys ?c' = chain_keys ?c"
      unfolding chain_keys_def chain_pairs_chain_of map_fst_upd by (rule refl)
    have sc': "sorted_chain ?c'"
      unfolding sorted_chain_chain_of map_fst_upd by (rule so)
    have 1: "table_ok h'"
      unfolding h' using ok lt bi sc' by (rule table_ok_update) (use keys in auto)
    have 2: "table_keys h' = table_keys h"
      unfolding h' using table_keys_update [OF lt, of ?c' "{}"] keys by simp
    have "chain_length ?c' = chain_length ?c"
      using ak by (simp add: chain_length_chain_of chain_length_pairs)
    then have 3: "num_entries h' = num_entries h"
      unfolding h' using num_entries_update [OF lt, of ?c'] by simp
    from 1 2 3 cnt show ?thesis by auto
  next
    case False
    obtain b1 al1 where m1: "malloc al = (b1, al1)" by (cases "malloc al")
    obtain b2 al2 where m2: "malloc al1 = (b2, al2)" by (cases "malloc al1")
    show ?thesis
    proof (cases b1)
      case b1F: False
      with symtabInstall_failures(1) [OF ok bi lt False, of al al1 data] m1 run
      have "h' = h" by simp
      with ok cnt show ?thesis by auto
    next
      case b1T: True
      show ?thesis
      proof (cases b2)
        case False
        with symtabInstall_failures(2) [OF ok bi lt \<open>symbol \<notin> set (chain_keys ?c)\<close>, of al al1 al2 data]
          m1 m2 b1T run
        show ?thesis by simp
      next
        case True
        let ?c' = "chain_of (takeWhile (\<lambda>(k, v). strcmp symbol k > 0) ?ps @ (symbol, data)
          # dropWhile (\<lambda>(k, v). strcmp symbol k > 0) ?ps)"
        from ins [OF False, of al1 al2] m1 m2 b1T True run
        have h': "h' = h\<lparr>table := (table h)[bin := ?c']\<rparr>" by simp
        have nin: "symbol \<notin> fst ` set ?ps"
          using False by (simp add: chain_keys_def)
        have "sorted_chain ?c'"
          using sorted_insert_keys [OF so nin] by (simp add: sorted_chain_chain_of)
        have keys: "set (chain_keys ?c') = {symbol} \<union> set (chain_keys ?c)"
        proof -
          have "set (chain_keys ?c') = insert symbol (fst ` (set (takeWhile (\<lambda>(k, v). strcmp symbol k > 0) ?ps)
              \<union> set (dropWhile (\<lambda>(k, v). strcmp symbol k > 0) ?ps)))"
            by (simp add: chain_keys_chain_of image_Un)
          also have "set (takeWhile (\<lambda>(k, v). strcmp symbol k > 0) ?ps)
              \<union> set (dropWhile (\<lambda>(k, v). strcmp symbol k > 0) ?ps) = set ?ps"
            using set_append [of "takeWhile (\<lambda>(k, v). strcmp symbol k > 0) ?ps"
                "dropWhile (\<lambda>(k, v). strcmp symbol k > 0) ?ps"]
            by simp
          finally show ?thesis by (simp add: chain_keys_def)
        qed
        have 1: "table_ok h'"
          unfolding h' using ok lt bi \<open>sorted_chain ?c'\<close>
          by (rule table_ok_update) (use keys in auto)
        have 2: "table_keys h' = insert symbol (table_keys h)"
          unfolding h' using table_keys_update [OF lt keys] by simp
        have "chain_length ?c' = Suc (chain_length ?c)"
        proof -
          have "length (takeWhile (\<lambda>(k, v). strcmp symbol k > 0) ?ps)
              + length (dropWhile (\<lambda>(k, v). strcmp symbol k > 0) ?ps) = length ?ps"
            using length_append [of "takeWhile (\<lambda>(k, v). strcmp symbol k > 0) ?ps"
                "dropWhile (\<lambda>(k, v). strcmp symbol k > 0) ?ps"]
            by simp
          then show ?thesis
            using ak by (simp add: chain_length_chain_of chain_length_pairs)
        qed
        then have 3: "num_entries h' = Suc (num_entries h)"
          unfolding h' using num_entries_update [OF lt, of ?c'] by simp
        have "symbol \<notin> table_keys h"
          using ok lt bi False by (rule absent_everywhere)
        with fin have "card (insert symbol (table_keys h)) = Suc (card (table_keys h))"
          by simp
        with 1 2 3 cnt show ?thesis by auto
      qed
    qed
  qed
qed


lemma symtabCreate_Some:
  assumes "symtabCreate al sizeHint = (Some h, al')"
  shows "1 \<le> sint sizeHint \<and> h = \<lparr>size_ht = sizeHint, table = replicate (nat (sint sizeHint)) NULL\<rparr>"
  using assms
  by (auto simp: symtabCreate_def init_loop_all split: if_splits prod.splits bool.splits)

lemma table_keys_empty: "table_keys \<lparr>size_ht = s, table = replicate n NULL\<rparr> = {}"
  by (auto simp: table_keys_def chain_keys_def)

lemma num_entries_empty: "num_entries \<lparr>size_ht = s, table = replicate n NULL\<rparr> = 0"
  by (simp add: num_entries_def)

lemma table_ok_empty:
  "1 \<le> sint s \<Longrightarrow> table_ok \<lparr>size_ht = s, table = replicate (nat (sint s)) NULL\<rparr>"
  by (simp add: table_ok_nth bucket_ok_def sorted_chain_def chain_keys_def)

lemma reachable_inv:
  "reachable K h \<Longrightarrow>
     table_ok h \<and> finite K \<and> table_keys h \<subseteq> K \<and> num_entries h = card (table_keys h)"
proof (induction rule: reachable.induct)
  case (created al sizeHint h al')
  from symtabCreate_Some [OF created] show ?case
    by (auto simp: table_ok_empty table_keys_empty num_entries_empty)
next
  case (installed K h al symbol data r al' h')
  then have ok: "table_ok h" and finK: "finite K" and sub: "table_keys h \<subseteq> K"
    and cnt: "num_entries h = card (table_keys h)"
    by simp_all
  from finK sub have fin: "finite (table_keys h)" by (rule rev_finite_subset)
  from install_step [OF ok fin cnt installed.hyps(2)] sub finK show ?case
    by auto
qed

lemma reachable_table_ok: "reachable K h \<Longrightarrow> table_ok h"
  using reachable_inv by blast

lemma sorted_chain_distinct: "sorted_chain c \<Longrightarrow> distinct (chain_keys c)"
proof -
  have "sorted_wrt key_less xs \<Longrightarrow> distinct xs" for xs
    by (induction xs) (auto simp: key_less_irrefl)
  then show "sorted_chain c \<Longrightarrow> distinct (chain_keys c)"
    by (simp add: sorted_chain_def)
qed


text \<open>
  C4. \<^verbatim>\<open>symtabInstall\<close> returns 0 only when the allocation of the new node has failed
  (the first of the two allocations the claim names), and then the table it leaves is
  the table it was given. Nothing is assumed about the table.
\<close>

theorem symtabInstall_failure:
  assumes "symtabInstall al h symbol data = Inr (0, al', h')"
  shows "\<not> fst (malloc al) \<and> h' = h"
  using symtabInstall_returns [OF assms] by simp

theorem symtabInstall_failure_witness:
  "symtabInstall (plenty\<lparr>outcomes := [False]\<rparr>) \<lparr>size_ht = 1, table = [NULL]\<rparr> ''a'' 1
     = Inr (0, plenty, \<lparr>size_ht = 1, table = [NULL]\<rparr>)
   \<and> \<not> fst (malloc (plenty\<lparr>outcomes := [False]\<rparr>))"
proof -
  have run: "symtabInstall (plenty\<lparr>outcomes := [False]\<rparr>) \<lparr>size_ht = 1, table = [NULL]\<rparr> ''a'' 1
     = Inr (0, plenty, \<lparr>size_ht = 1, table = [NULL]\<rparr>)"
    by code_simp
  from symtabInstall_failure [OF run] run show ?thesis by simp
qed

text \<open>
  C5. On a table that satisfies the invariant (as every table built by \<^verbatim>\<open>symtabCreate\<close>
  and \<^verbatim>\<open>symtabInstall\<close> does), \<^verbatim>\<open>symtabInstall\<close> works on the bucket the key hashes
  to. If the bucket holds the key, the call returns 1 without allocating,
  and the bucket's chain keeps its keys and their order, the value of that key
  replaced. Otherwise, when both allocations succeed, the call returns 1 and the new
  pair stands after all the pairs whose keys come before the key and before the
  first pair whose key does not (as new head, new tail or in between). Every other
  bucket is as before.
\<close>

theorem symtabInstall_spec:
  assumes "table_ok h"
  shows "\<exists>bin < length (table h). bucket_index h symbol = Inr (int bin) \<and>
    (let ps = chain_pairs (table h ! bin) in
       if symbol \<in> fst ` set ps then
         symtabInstall al h symbol data = Inr (1, al, h\<lparr>table := (table h)[bin :=
           chain_of (map (\<lambda>(k, v). if k = symbol then (k, data) else (k, v)) ps)]\<rparr>)
       else
         fst (malloc al) \<longrightarrow> fst (malloc (snd (malloc al))) \<longrightarrow>
         symtabInstall al h symbol data = Inr (1, snd (malloc (snd (malloc al))),
           h\<lparr>table := (table h)[bin :=
             chain_of (takeWhile (\<lambda>(k, v). key_less k symbol) ps @ (symbol, data)
               # dropWhile (\<lambda>(k, v). key_less k symbol) ps)]\<rparr>))"
proof -
  from symtabInstall_cases [OF assms, of symbol al data] obtain bin where
    bi: "bucket_index h symbol = Inr (int bin)" and lt: "bin < length (table h)"
    and upd: "symbol \<in> set (chain_keys (table h ! bin)) \<Longrightarrow>
      symtabInstall al h symbol data = Inr (1, al, h\<lparr>table := (table h)[bin :=
        chain_of (map (\<lambda>(k, v). if k = symbol then (k, data) else (k, v))
          (chain_pairs (table h ! bin)))]\<rparr>)"
    and ins: "\<And>al1 al2. symbol \<notin> set (chain_keys (table h ! bin)) \<Longrightarrow>
      malloc al = (True, al1) \<Longrightarrow> malloc al1 = (True, al2) \<Longrightarrow>
      symtabInstall al h symbol data = Inr (1, al2, h\<lparr>table := (table h)[bin :=
        chain_of (takeWhile (\<lambda>(k, v). strcmp symbol k > 0) (chain_pairs (table h ! bin))
          @ (symbol, data)
          # dropWhile (\<lambda>(k, v). strcmp symbol k > 0) (chain_pairs (table h ! bin)))]\<rparr>)"
    by blast
  have flip: "(\<lambda>(k :: string, v :: voidp). key_less k symbol) = (\<lambda>(k, v). strcmp symbol k > 0)"
    by (simp add: key_less_flip)
  have "symbol \<notin> fst ` set (chain_pairs (table h ! bin)) \<Longrightarrow> fst (malloc al) \<Longrightarrow>
      fst (malloc (snd (malloc al))) \<Longrightarrow>
      symtabInstall al h symbol data = Inr (1, snd (malloc (snd (malloc al))),
        h\<lparr>table := (table h)[bin :=
          chain_of (takeWhile (\<lambda>(k, v). strcmp symbol k > 0) (chain_pairs (table h ! bin))
          @ (symbol, data)
          # dropWhile (\<lambda>(k, v). strcmp symbol k > 0) (chain_pairs (table h ! bin)))]\<rparr>)"
    using ins [of "snd (malloc al)" "snd (malloc (snd (malloc al)))"]
    by (simp add: chain_keys_def prod_eq_iff)
  with upd bi lt show ?thesis
    by (auto simp: Let_def flip chain_keys_def)
qed

theorem symtabInstall_spec_witness:
  "table_ok \<lparr>size_ht = 1, table = [Entry (Some ''b'') 2 (Entry (Some ''d'') 4 NULL)]\<rparr>
   \<and> symtabInstall plenty
        \<lparr>size_ht = 1, table = [Entry (Some ''b'') 2 (Entry (Some ''d'') 4 NULL)]\<rparr> ''c'' 3
     = Inr (1, plenty, \<lparr>size_ht = 1,
         table = [Entry (Some ''b'') 2 (Entry (Some ''c'') 3 (Entry (Some ''d'') 4 NULL))]\<rparr>)
   \<and> symtabInstall plenty
        \<lparr>size_ht = 1, table = [Entry (Some ''b'') 2 (Entry (Some ''d'') 4 NULL)]\<rparr> ''d'' 9
     = Inr (1, plenty, \<lparr>size_ht = 1,
         table = [Entry (Some ''b'') 2 (Entry (Some ''d'') 9 NULL)]\<rparr>)"
proof -
  let ?h = "\<lparr>size_ht = 1, table = [Entry (Some ''b'') 2 (Entry (Some ''d'') 4 NULL)]\<rparr>"
  have ok: "table_ok ?h"
    by (simp add: table_ok_def bucket_ok_def sorted_chain_def chain_keys_def key_less_def
        bucket_index_def hash_def)
  have m: "malloc plenty = (True, plenty)"
    by (simp add: malloc_def plenty_def)
  from symtabInstall_spec [OF ok, of "''c''" plenty 3]
  have 1: "symtabInstall plenty ?h ''c'' 3 = Inr (1, plenty, \<lparr>size_ht = 1,
         table = [Entry (Some ''b'') 2 (Entry (Some ''c'') 3 (Entry (Some ''d'') 4 NULL))]\<rparr>)"
    by (simp add: m key_less_def chain_of_def)
  from symtabInstall_spec [OF ok, of "''d''" plenty 9]
  have 2: "symtabInstall plenty ?h ''d'' 9 = Inr (1, plenty, \<lparr>size_ht = 1,
         table = [Entry (Some ''b'') 2 (Entry (Some ''d'') 9 NULL)]\<rparr>)"
    by (simp add: chain_of_def)
  from ok 1 2 show ?thesis by simp
qed

text \<open>
  C6. In every table that \<^verbatim>\<open>symtabCreate\<close> and any calls of \<^verbatim>\<open>symtabInstall\<close> produce,
  the keys of each chain are strictly ascending in the order of \<^verbatim>\<open>strcmp\<close>, so no
  chain holds a key twice; the table holds one node per stored key, and all stored
  keys are among the keys installed: the number of nodes is at most the number of
  distinct keys installed.
\<close>

theorem reachable_sorted_unique:
  assumes "reachable K h"
  shows "(\<forall>c \<in> set (table h). sorted_chain c \<and> distinct (chain_keys c))
    \<and> num_entries h = card (table_keys h) \<and> table_keys h \<subseteq> K \<and> num_entries h \<le> card K"
proof -
  from reachable_inv [OF assms] have ok: "table_ok h" and finK: "finite K"
    and sub: "table_keys h \<subseteq> K" and cnt: "num_entries h = card (table_keys h)"
    by simp_all
  have "sorted_chain c \<and> distinct (chain_keys c)" if "c \<in> set (table h)" for c
  proof -
    from that obtain i where "i < length (table h)" "c = table h ! i"
      by (auto simp: set_conv_nth)
    with ok have "sorted_chain c" by (simp add: table_ok_nth bucket_ok_def)
    then show ?thesis by (simp add: sorted_chain_distinct)
  qed
  moreover have "card (table_keys h) \<le> card K"
    using finK sub by (rule card_mono)
  ultimately show ?thesis using cnt sub by auto
qed

theorem reachable_sorted_unique_witness:
  "reachable {''a'', ''b''}
     \<lparr>size_ht = 1, table = [Entry (Some ''a'') 1 (Entry (Some ''b'') 5 NULL)]\<rparr>
   \<and> num_entries \<lparr>size_ht = 1, table = [Entry (Some ''a'') 1 (Entry (Some ''b'') 5 NULL)]\<rparr>
       \<le> card {''a'', ''b''}
   \<and> table_keys \<lparr>size_ht = 1, table = [Entry (Some ''a'') 1 (Entry (Some ''b'') 5 NULL)]\<rparr>
       \<subseteq> {''a'', ''b''}"
proof -
  have c: "symtabCreate plenty 1 = (Some \<lparr>size_ht = 1, table = [NULL]\<rparr>, plenty)"
    by code_simp
  have i1: "symtabInstall plenty \<lparr>size_ht = 1, table = [NULL]\<rparr> ''b'' 2
      = Inr (1, plenty, \<lparr>size_ht = 1, table = [Entry (Some ''b'') 2 NULL]\<rparr>)"
    by code_simp
  have i2: "symtabInstall plenty \<lparr>size_ht = 1, table = [Entry (Some ''b'') 2 NULL]\<rparr> ''a'' 1
      = Inr (1, plenty,
          \<lparr>size_ht = 1, table = [Entry (Some ''a'') 1 (Entry (Some ''b'') 2 NULL)]\<rparr>)"
    by code_simp
  have i3: "symtabInstall plenty
        \<lparr>size_ht = 1, table = [Entry (Some ''a'') 1 (Entry (Some ''b'') 2 NULL)]\<rparr> ''b'' 5
      = Inr (1, plenty,
          \<lparr>size_ht = 1, table = [Entry (Some ''a'') 1 (Entry (Some ''b'') 5 NULL)]\<rparr>)"
    by code_simp
  have "reachable (insert ''b'' (insert ''a'' (insert ''b'' {})))
      \<lparr>size_ht = 1, table = [Entry (Some ''a'') 1 (Entry (Some ''b'') 5 NULL)]\<rparr>"
    by (rule installed [OF installed [OF installed [OF created [OF c] i1] i2] i3])
  moreover have "insert ''b'' (insert ''a'' (insert ''b'' {})) = {''a'', ''b''}"
    by auto
  ultimately have r: "reachable {''a'', ''b''}
      \<lparr>size_ht = 1, table = [Entry (Some ''a'') 1 (Entry (Some ''b'') 5 NULL)]\<rparr>"
    by simp
  from reachable_sorted_unique [OF r] r show ?thesis by simp
qed

subsection \<open>symtabNext and the output location\<close>

declare find_loop.simps [simp del]

lemma read_table_keyed:
  "list_all all_keyed (table h) \<Longrightarrow> read_table h i = Inr el \<Longrightarrow> all_keyed el"
  by (auto simp: read_table_def list_all_length split: if_splits)

lemma find_loop_keyed:
  "list_all all_keyed (table h) \<Longrightarrow> all_keyed el \<Longrightarrow> find_loop h idx el = Inr (idx', el')
    \<Longrightarrow> all_keyed el'"
proof (induction h idx el rule: find_loop.induct)
  case (1 hashtable idx el)
  show ?case
  proof (cases "has_key el")
    case True
    with 1(4) have "el' = el" by (subst (asm) find_loop.simps) simp
    with 1(3) show ?thesis by simp
  next
    case False
    from False 1(4) obtain e where rd: "read_table hashtable (uint (idx + 1)) = Inr e"
      by (subst (asm) find_loop.simps) (auto split: sum.splits)
    with 1(2) have ke: "all_keyed e" by (rule read_table_keyed)
    show ?thesis
    proof (cases "idx + 1 < size_ht hashtable - 1")
      case True
      with False rd 1(4) have "find_loop hashtable (idx + 1) e = Inr (idx', el')"
        by (subst (asm) find_loop.simps) simp
      with 1(1) [OF False rd True 1(2) ke] show ?thesis by simp
    next
      case lt: False
      with False rd 1(4) have "el' = e"
        by (subst (asm) find_loop.simps) simp
      with ke show ?thesis by simp
    qed
  qed
qed

lemma all_keyed_has_key: "all_keyed n \<Longrightarrow> n \<noteq> NULL \<Longrightarrow> \<exists>s v m. n = Entry (Some s) v m"
  by (cases n) auto

lemma next_result_keyed:
  "(case elem it of NULL \<Rightarrow> True | Entry k v n \<Rightarrow> k \<noteq> None) \<Longrightarrow>
   next_result it rd = (None, it', rd') \<Longrightarrow> rd' = rd"
  by (auto simp: next_result_def split: entry_ptr.splits)

lemma next_result_it: "next_result it rd = (r, it', rd') \<Longrightarrow> it' = it"
  by (auto simp: next_result_def split: entry_ptr.splits)

lemma table_ok_keyed: "table_ok h \<Longrightarrow> list_all all_keyed (table h)"
  by (auto simp: table_ok_nth bucket_ok_def sorted_chain_def list_all_length)

lemma symtabCreateIterator_ok:
  assumes "list_all all_keyed (table h)" and "symtabCreateIterator al h = Inr (Some it, al')"
  shows "it_ok it"
proof -
  from assms(2) obtain first idx el where
    rd: "read_table h 0 = Inr first" and fl: "find_loop h 0 first = Inr (idx, el)"
    and it: "ht it = h" "\<exists>k v. elem it = Entry k v el"
    by (auto simp: symtabCreateIterator_def split: prod.splits bool.splits sum.splits)
  from assms(1) rd have "all_keyed first" by (rule read_table_keyed)
  with assms(1) have "all_keyed el" using fl by (rule find_loop_keyed)
  with it assms(1) show ?thesis by (auto simp: it_ok_def)
qed

lemma symtabNext_ok:
  assumes ok: "it_ok it" and run: "symtabNext it rd = Inr (r, it', rd')"
  shows "it_ok it'"
proof -
  from ok have tk: "list_all all_keyed (table (ht it))" by (simp add: it_ok_def)
  from run obtain k v n where e: "elem it = Entry k v n"
    by (cases "elem it") (auto simp: symtabNext_def)
  with ok have kn: "all_keyed n" by (simp add: it_ok_def)
  show ?thesis
  proof (cases "n = NULL")
    case False
    with run e have "it' = it\<lparr>elem := n\<rparr>"
      by (auto simp: symtabNext_def dest: next_result_it)
    with kn tk show ?thesis
      by (cases n) (auto simp: it_ok_def)
  next
    case True
    show ?thesis
    proof (cases "index it + 1 \<ge> size_ht (ht it)")
      case True
      with \<open>n = NULL\<close> run e have "it' = it\<lparr>index := index it + 1\<rparr>"
        by (simp add: symtabNext_def Let_def)
      with ok show ?thesis by (simp add: it_ok_def)
    next
      case False
      with \<open>n = NULL\<close> run e obtain first idx el where
        rd: "read_table (ht it) (uint (index it + 1)) = Inr first"
        and fl: "find_loop (ht it) (index it + 1) first = Inr (idx, el)"
        and it': "it' = it\<lparr>index := idx, elem := el\<rparr>"
        by (auto simp: symtabNext_def Let_def split: sum.splits dest: next_result_it)
      from tk rd have "all_keyed first" by (rule read_table_keyed)
      with tk have "all_keyed el" using fl by (rule find_loop_keyed)
      with tk it' show ?thesis
        by (cases el) (auto simp: it_ok_def)
    qed
  qed
qed

lemma iterating_ok: "iterating it \<Longrightarrow> it_ok it"
proof (induction rule: iterating.induct)
  case (fresh K h al it al')
  from reachable_inv [OF fresh(1)] have "table_ok h" by simp
  then have "list_all all_keyed (table h)" by (rule table_ok_keyed)
  then show ?case using fresh(2) by (rule symtabCreateIterator_ok)
next
  case (advanced it returnData r it' returnData')
  then show ?case by (auto intro: symtabNext_ok)
qed

lemma symtabNext_end_keeps:
  assumes ok: "it_ok it" and run: "symtabNext it rd = Inr (None, it', rd')"
  shows "rd' = rd"
proof -
  from ok have tk: "list_all all_keyed (table (ht it))" by (simp add: it_ok_def)
  from run obtain k v n where e: "elem it = Entry k v n"
    by (cases "elem it") (auto simp: symtabNext_def)
  with ok have kn: "all_keyed n" by (simp add: it_ok_def)
  show ?thesis
  proof (cases "n = NULL")
    case False
    with kn obtain s w m where "n = Entry (Some s) w m"
      using all_keyed_has_key by blast
    with run e show ?thesis
      by (simp add: symtabNext_def next_result_def)
  next
    case True
    show ?thesis
    proof (cases "index it + 1 \<ge> size_ht (ht it)")
      case True
      with \<open>n = NULL\<close> run e show ?thesis
        by (simp add: symtabNext_def Let_def)
    next
      case False
      with \<open>n = NULL\<close> run e obtain first idx el where
        rd: "read_table (ht it) (uint (index it + 1)) = Inr first"
        and fl: "find_loop (ht it) (index it + 1) first = Inr (idx, el)"
        and res: "next_result (it\<lparr>index := idx, elem := el\<rparr>) rd = (None, it', rd')"
        by (auto simp: symtabNext_def Let_def split: sum.splits)
      from tk rd have "all_keyed first" by (rule read_table_keyed)
      with tk have "all_keyed el" using fl by (rule find_loop_keyed)
      then have "case elem (it\<lparr>index := idx, elem := el\<rparr>) of NULL \<Rightarrow> True
          | Entry k v n \<Rightarrow> k \<noteq> None"
        by (cases el) auto
      then show ?thesis using res by (rule next_result_keyed)
    qed
  qed
qed


text \<open>
  C10. For every iterator that \<^verbatim>\<open>symtabCreateIterator\<close> and calls of \<^verbatim>\<open>symtabNext\<close>
  produce over a table built by \<^verbatim>\<open>symtabCreate\<close> and \<^verbatim>\<open>symtabInstall\<close>: when
  \<^verbatim>\<open>symtabNext\<close> returns the null pointer, \<^verbatim>\<open>*returnData\<close> holds what it held before the
  call.
\<close>

theorem symtabNext_end_frame:
  assumes "iterating it" and "symtabNext it returnData = Inr (None, it', returnData')"
  shows "returnData' = returnData"
  using iterating_ok [OF assms(1)] assms(2) by (rule symtabNext_end_keeps)

theorem symtabNext_end_frame_witness:
  "iterating \<lparr>ht = \<lparr>size_ht = 1, table = [Entry (Some ''a'') 1 NULL]\<rparr>, index = 0,
       elem = Entry (Some ''a'') 1 NULL\<rparr>
   \<and> symtabNext \<lparr>ht = \<lparr>size_ht = 1, table = [Entry (Some ''a'') 1 NULL]\<rparr>, index = 0,
       elem = Entry (Some ''a'') 1 NULL\<rparr> 1
     = Inr (None, \<lparr>ht = \<lparr>size_ht = 1, table = [Entry (Some ''a'') 1 NULL]\<rparr>, index = 1,
       elem = Entry (Some ''a'') 1 NULL\<rparr>, 1)"
proof -
  have c: "symtabCreate plenty 1 = (Some \<lparr>size_ht = 1, table = [NULL]\<rparr>, plenty)"
    by code_simp
  have i1: "symtabInstall plenty \<lparr>size_ht = 1, table = [NULL]\<rparr> ''a'' 1
      = Inr (1, plenty, \<lparr>size_ht = 1, table = [Entry (Some ''a'') 1 NULL]\<rparr>)"
    by code_simp
  have ci: "symtabCreateIterator plenty \<lparr>size_ht = 1, table = [Entry (Some ''a'') 1 NULL]\<rparr>
      = Inr (Some \<lparr>ht = \<lparr>size_ht = 1, table = [Entry (Some ''a'') 1 NULL]\<rparr>, index = 0,
          elem = Entry None 0 (Entry (Some ''a'') 1 NULL)\<rparr>, plenty)"
    by code_simp
  have n1: "symtabNext \<lparr>ht = \<lparr>size_ht = 1, table = [Entry (Some ''a'') 1 NULL]\<rparr>, index = 0,
          elem = Entry None 0 (Entry (Some ''a'') 1 NULL)\<rparr> 0
      = Inr (Some ''a'', \<lparr>ht = \<lparr>size_ht = 1, table = [Entry (Some ''a'') 1 NULL]\<rparr>, index = 0,
          elem = Entry (Some ''a'') 1 NULL\<rparr>, 1)"
    by code_simp
  have n2: "symtabNext \<lparr>ht = \<lparr>size_ht = 1, table = [Entry (Some ''a'') 1 NULL]\<rparr>, index = 0,
          elem = Entry (Some ''a'') 1 NULL\<rparr> 1
      = Inr (None, \<lparr>ht = \<lparr>size_ht = 1, table = [Entry (Some ''a'') 1 NULL]\<rparr>, index = 1,
          elem = Entry (Some ''a'') 1 NULL\<rparr>, 1)"
    by code_simp
  have it: "iterating \<lparr>ht = \<lparr>size_ht = 1, table = [Entry (Some ''a'') 1 NULL]\<rparr>, index = 0,
       elem = Entry (Some ''a'') 1 NULL\<rparr>"
    by (rule advanced [OF fresh [OF installed [OF created [OF c] i1] ci] n1])
  from symtabNext_end_frame [OF it n2] it n2 show ?thesis by simp
qed

subsection \<open>lookup and symtabLookup\<close>

text \<open>\<^verbatim>\<open>lookup\<close> looks at the head of the key's bucket and at nothing else.\<close>

lemma lookup_head_only:
  assumes "table_ok h"
  shows "\<exists>bin < length (table h). bucket_index h key = Inr (int bin) \<and>
     lookup h key =
       (case chain_pairs (table h ! bin) of
          [] \<Rightarrow> Inr 0
        | (k, v) # rest \<Rightarrow> if k = key then Inr v else Inr 0)"
proof -
  from table_ok_bucket [OF assms, of key] obtain bin where
    bi: "bucket_index h key = Inr (int bin)" and lt: "bin < length (table h)"
    and rd: "read_table h (int bin) = Inr (table h ! bin)" by blast
  from assms lt have ak: "all_keyed (table h ! bin)"
    by (simp add: table_ok_nth bucket_ok_def sorted_chain_def)
  have "lookup h key =
       (case chain_pairs (table h ! bin) of
          [] \<Rightarrow> Inr 0
        | (k, v) # rest \<Rightarrow> if k = key then Inr v else Inr 0)"
    using bi rd ak
    by (cases "table h ! bin") (auto simp: lookup_def strcmp_eq_0_iff)
  with bi lt show ?thesis by blast
qed

lemma symtabLookup_narrowed:
  "symtabLookup h key =
     (case lookup h key of Inl e \<Rightarrow> Inl e | Inr p \<Rightarrow> Inr (scast (ucast p :: cint)))"
  by (auto simp: symtabLookup_def Let_def split: sum.splits)

text \<open>A payload that is an \<^verbatim>\<open>int\<close> widened to a pointer, as the counters of \<^verbatim>\<open>main.c\<close>
  are, passes through \<^verbatim>\<open>symtabLookup\<close> unchanged.\<close>

lemma down_up: "(ucast (scast (q :: 32 word) :: 64 word) :: 32 word) = q"
  by (rule bit_word_eqI) (auto simp: bit_simps)

lemma symtabLookup_int_values:
  assumes "lookup h key = Inr (scast (q :: cint))"
  shows "symtabLookup h key = Inr (scast q)"
  using assms by (simp add: symtabLookup_narrowed down_up)

text \<open>
  C2. The claim asks the lookup to return the value of the head entry when its key is
  the candidate. \<^verbatim>\<open>lookup\<close> does; \<^verbatim>\<open>symtabLookup\<close> passes the result through an \<^verbatim>\<open>int\<close>,
  so a value that needs more than 32 bits comes back changed. Here the head of the
  bucket holds the key a with the value \<open>2^32\<close>, and \<^verbatim>\<open>symtabLookup\<close> answers with
  the null pointer, which is its not-found result.
\<close>

theorem symtabLookup_narrows:
  "symtabCreate plenty 1 = (Some \<lparr>size_ht = 1, table = [NULL]\<rparr>, plenty)
   \<and> symtabInstall plenty \<lparr>size_ht = 1, table = [NULL]\<rparr> ''a'' 0x100000000
       = Inr (1, plenty, \<lparr>size_ht = 1, table = [Entry (Some ''a'') 0x100000000 NULL]\<rparr>)
   \<and> lookup \<lparr>size_ht = 1, table = [Entry (Some ''a'') 0x100000000 NULL]\<rparr> ''a''
       = Inr 0x100000000
   \<and> symtabLookup \<lparr>size_ht = 1, table = [Entry (Some ''a'') 0x100000000 NULL]\<rparr> ''a''
       = Inr 0"
  by code_simp

subsection \<open>Iteration\<close>

text \<open>The search loop stops at the next bucket that is not empty, when there is one,
  and at the last bucket when all the buckets it passes are empty.\<close>

lemma unat_size:
  assumes "1 \<le> sint (size_ht h)"
  shows "unat (size_ht h) = nat (sint (size_ht h))"
proof -
  have "uint (size_ht h) = sint (size_ht h)"
    by (rule uint_of_pos_sint) (use assms in linarith)
  then show ?thesis by (simp add: unat_eq_nat_uint)
qed

lemma size_bound:
  "nat (sint (w :: 32 word)) < 2 ^ 31"
proof -
  have "sint w < 2 ^ 31" using sint_lt [of w] by simp
  then show ?thesis by simp
qed

lemma unat_succ:
  assumes "unat (idx :: 32 word) < 2 ^ 31"
  shows "unat (idx + 1) = Suc (unat idx)"
proof -
  have "unat idx + unat (1 :: 32 word) < 2 ^ LENGTH(32)"
    using assms by simp
  then have "unat (idx + 1) = unat idx + unat (1 :: 32 word)"
    by (simp only: unat_add_lem)
  then show ?thesis by simp
qed

lemma read_table_nth:
  assumes "unat idx < length (table h)"
  shows "read_table h (uint idx) = Inr (table h ! unat idx)"
proof -
  have "nat (uint idx) < length (table h)"
    using assms by (simp only: unat_eq_nat_uint)
  then have "uint idx < int (length (table h))"
    using uint_ge_0 [of idx] by linarith
  then show ?thesis
    by (simp add: read_table_def)
qed

lemma all_keyed_has_key_iff: "all_keyed c \<Longrightarrow> has_key c \<longleftrightarrow> c \<noteq> NULL"
  by (cases c) auto

lemma find_loop_next_bucket:
  assumes size: "1 \<le> sint (size_ht h)" and len: "length (table h) = nat (sint (size_ht h))"
    and keyed: "list_all all_keyed (table h)"
    and ij: "unat idx \<le> j" and jn: "j < length (table h)"
    and empty: "\<forall>m. unat idx \<le> m \<and> m < j \<longrightarrow> table h ! m = NULL"
    and full: "table h ! j \<noteq> NULL"
  shows "\<exists>idx'. unat idx' = j \<and> find_loop h idx (table h ! unat idx) = Inr (idx', table h ! j)"
  using ij empty
proof (induction "j - unat idx" arbitrary: idx)
  case 0
  then have eq: "unat idx = j" by simp
  from keyed jn have "all_keyed (table h ! j)" by (simp add: list_all_length)
  with full have "has_key (table h ! j)" by (simp add: all_keyed_has_key_iff)
  with eq show ?case
    by (subst find_loop.simps) simp
next
  case (Suc d)
  then have lt: "unat idx < j" by simp
  with Suc.prems(2) have here: "table h ! unat idx = NULL" by simp
  have n31: "length (table h) < 2 ^ 31"
    using size_bound [of "size_ht h"] len by simp
  with lt jn have small: "unat idx < 2 ^ 31" by simp
  then have suc: "unat (idx + 1) = Suc (unat idx)" by (rule unat_succ)
  with lt jn have rd: "read_table h (uint (idx + 1)) = Inr (table h ! unat (idx + 1))"
    by (intro read_table_nth) simp
  have nz: "size_ht h \<noteq> 0"
  proof
    assume "size_ht h = 0"
    then have "sint (size_ht h) = 0" by simp
    with size show False by simp
  qed
  have last: "unat (size_ht h - 1) = length (table h) - 1"
    using unat_minus_one [OF nz] unat_size [OF size] len by simp
  have cond: "idx + 1 < size_ht h - 1 \<longleftrightarrow> Suc (unat idx) < length (table h) - 1"
    by (simp add: word_less_nat_alt suc last)
  show ?case
  proof (cases "Suc (unat idx) < length (table h) - 1")
    case True
    have "\<exists>idx'. unat idx' = j \<and>
        find_loop h (idx + 1) (table h ! unat (idx + 1)) = Inr (idx', table h ! j)"
    proof (rule Suc.hyps(1))
      show "d = j - unat (idx + 1)" using Suc.hyps(2) suc by simp
      show "unat (idx + 1) \<le> j" using lt suc by simp
      show "\<forall>m. unat (idx + 1) \<le> m \<and> m < j \<longrightarrow> table h ! m = NULL"
        using Suc.prems(2) suc by simp
    qed
    with here rd cond True show ?thesis
      by (subst find_loop.simps) simp
  next
    case False
    with lt jn have "j = Suc (unat idx)" by simp
    with here rd cond False suc show ?thesis
      by (subst find_loop.simps) simp
  qed
qed

lemma find_loop_all_empty:
  assumes size: "1 \<le> sint (size_ht h)" and len: "length (table h) = nat (sint (size_ht h))"
    and more: "Suc (unat idx) < length (table h)"
    and empty: "\<forall>m. unat idx < m \<and> m < length (table h) \<longrightarrow> table h ! m = NULL"
  shows "\<exists>idx'. unat idx' = length (table h) - 1 \<and> find_loop h idx NULL = Inr (idx', NULL)"
  using more empty
proof (induction "length (table h) - unat idx" arbitrary: idx)
  case 0
  then show ?case by simp
next
  case (Suc d)
  have n31: "length (table h) < 2 ^ 31"
    using size_bound [of "size_ht h"] len by simp
  with Suc.prems(1) have "unat idx < 2 ^ 31" by simp
  then have suc: "unat (idx + 1) = Suc (unat idx)" by (rule unat_succ)
  have rd: "read_table h (uint (idx + 1)) = Inr NULL"
    using read_table_nth [of "idx + 1" h] Suc.prems suc by simp
  have nz: "size_ht h \<noteq> 0"
  proof
    assume "size_ht h = 0"
    then have "sint (size_ht h) = 0" by simp
    with size show False by simp
  qed
  have lastw: "unat (size_ht h - 1) = length (table h) - 1"
    using unat_minus_one [OF nz] unat_size [OF size] len by simp
  have cond: "idx + 1 < size_ht h - 1 \<longleftrightarrow> Suc (unat idx) < length (table h) - 1"
    by (simp add: word_less_nat_alt suc lastw)
  show ?case
  proof (cases "Suc (unat idx) < length (table h) - 1")
    case True
    have "\<exists>idx'. unat idx' = length (table h) - 1 \<and> find_loop h (idx + 1) NULL = Inr (idx', NULL)"
    proof (rule Suc.hyps(1))
      show "d = length (table h) - unat (idx + 1)" using Suc.hyps(2) suc by simp
      show "Suc (unat (idx + 1)) < length (table h)" using True suc by simp
      show "\<forall>m. unat (idx + 1) < m \<and> m < length (table h) \<longrightarrow> table h ! m = NULL"
        using Suc.prems(2) suc by simp
    qed
    with rd cond True show ?thesis
      by (subst find_loop.simps) simp
  next
    case False
    with Suc.prems(1) have "Suc (unat idx) = length (table h) - 1" by simp
    with rd cond False suc show ?thesis
      by (subst find_loop.simps) simp
  qed
qed

lemma find_loop_capacity_one:
  assumes "length (table h) = 1"
  shows "find_loop h 0 NULL = Inl OutOfBounds"
proof -
  have "read_table h (uint (0 + 1 :: uint)) = Inl OutOfBounds"
    using assms by (simp add: read_table_def)
  then show ?thesis
    by (subst find_loop.simps) simp
qed

lemma first_bucket_from:
  assumes "a \<le> m" and "m < length tbl" and "tbl ! m \<noteq> NULL"
  obtains j where "a \<le> j" and "j < length tbl" and "tbl ! j \<noteq> NULL"
    and "\<forall>m. a \<le> m \<and> m < j \<longrightarrow> tbl ! m = NULL"
proof -
  let ?P = "\<lambda>j. a \<le> j \<and> tbl ! j \<noteq> NULL"
  have ex: "?P m" using assms by simp
  define j where "j = (LEAST j. ?P j)"
  have Pj: "?P j" unfolding j_def using ex by (rule LeastI)
  have le: "j \<le> m" unfolding j_def using ex by (rule Least_le)
  have "tbl ! q = NULL" if "a \<le> q" "q < j" for q
  proof (rule ccontr)
    assume "tbl ! q \<noteq> NULL"
    with that(1) have "?P q" by simp
    then have "j \<le> q" unfolding j_def by (rule Least_le)
    with that(2) show False by simp
  qed
  with Pj le assms(2) show thesis by (intro that [of j]) auto
qed

text \<open>The pairs still to come.\<close>

lemma concat_skip_empty:
  assumes "a \<le> j" and "j \<le> length tbl" and "\<forall>m. a \<le> m \<and> m < j \<longrightarrow> tbl ! m = NULL"
  shows "concat (map chain_pairs (drop a tbl)) = concat (map chain_pairs (drop j tbl))"
  using assms
proof (induction "j - a" arbitrary: a)
  case 0
  then show ?case by simp
next
  case (Suc d)
  then have lt: "a < j" by simp
  with Suc.prems have al: "a < length tbl" and here: "tbl ! a = NULL" by simp_all
  have "concat (map chain_pairs (drop (Suc a) tbl)) = concat (map chain_pairs (drop j tbl))"
    using Suc.hyps(2) Suc.prems lt by (intro Suc.hyps(1)) auto
  moreover have "drop a tbl = tbl ! a # drop (Suc a) tbl"
    using al by (simp add: Cons_nth_drop_Suc)
  ultimately show ?case using here by simp
qed

lemma num_entries_concat:
  assumes "list_all all_keyed (table h)"
  shows "num_entries h = length (concat (map chain_pairs (table h)))"
proof -
  have eq: "map chain_length (table h) = map (length \<circ> chain_pairs) (table h)"
    using assms by (auto simp: list_all_iff chain_length_pairs)
  show ?thesis
    unfolding num_entries_def length_concat map_map eq by (rule refl)
qed

lemma all_keyed_no_pairs: "all_keyed c \<Longrightarrow> chain_pairs c = [] \<Longrightarrow> c = NULL"
  by (cases c) auto

lemma remaining_Nil:
  assumes keyed: "list_all all_keyed (table h)" and kr: "all_keyed rest"
    and R: "remaining h i rest = []"
  shows "rest = NULL \<and> (\<forall>m. i < m \<and> m < length (table h) \<longrightarrow> table h ! m = NULL)"
proof -
  from R have r: "chain_pairs rest = []"
    and c: "\<forall>c \<in> set (drop (Suc i) (table h)). chain_pairs c = []"
    by (auto simp: remaining_def)
  have "table h ! m = NULL" if "i < m" "m < length (table h)" for m
  proof -
    from that have "table h ! m \<in> set (drop (Suc i) (table h))"
      by (auto simp: in_set_conv_nth intro!: exI [of _ "m - Suc i"])
    with c have "chain_pairs (table h ! m) = []" by simp
    moreover from keyed that(2) have "all_keyed (table h ! m)" by (simp add: list_all_length)
    ultimately show ?thesis by (rule all_keyed_no_pairs [rotated])
  qed
  with r kr show ?thesis by (simp add: all_keyed_no_pairs)
qed

text \<open>One call of \<^verbatim>\<open>symtabNext\<close>. While pairs remain, it yields the first of them and
  moves on. When none remain, it returns the null pointer and leaves the output
  location alone, except on the tables of \<open>past_end\<close>, where its search reads the
  bucket array at the index of its length.\<close>

lemma symtabNext_yield:
  assumes size: "1 \<le> sint (size_ht h)" and len: "length (table h) = nat (sint (size_ht h))"
    and keyed: "list_all all_keyed (table h)"
    and st: "it_at h it i rest" and R: "remaining h i rest = p # ps"
  shows "\<exists>s w it' i' rest'. p = (s, w) \<and> remaining h i' rest' = ps
          \<and> symtabNext it out = Inr (Some s, it', w) \<and> it_at h it' i' rest'"
proof -
  from st obtain k v where h: "ht it = h" and ui: "unat (index it) = i"
    and lt: "i < length (table h)" and e: "elem it = Entry k v rest" and kr: "all_keyed rest"
    and here: "table h ! i \<noteq> NULL \<or> (Suc i = length (table h) \<and> list_all (\<lambda>c. c = NULL) (table h))"
    by (auto simp: it_at_def)
  have n31: "length (table h) < 2 ^ 31"
    using size_bound [of "size_ht h"] len by simp
  show ?thesis
  proof (cases rest)
    case (Entry k' w m)
    with kr obtain s where k': "k' = Some s" and km: "all_keyed m" by auto
    let ?it' = "it\<lparr>elem := rest\<rparr>"
    have "symtabNext it out = Inr (Some s, ?it', w)"
      using e Entry k' by (simp add: symtabNext_def next_result_def)
    moreover have "it_at h ?it' i m"
      using h ui lt Entry km here by (simp add: it_at_def)
    moreover have "p = (s, w)" "remaining h i m = ps"
      using R Entry k' by (simp_all add: remaining_def)
    ultimately show ?thesis by blast
  next
    case NULL
    with R have ne: "concat (map chain_pairs (drop (Suc i) (table h))) \<noteq> []"
      by (simp add: remaining_def)
    then obtain c where "c \<in> set (drop (Suc i) (table h))" "chain_pairs c \<noteq> []"
      by auto
    then obtain d where d: "d < length (table h) - Suc i"
        "chain_pairs (table h ! (Suc i + d)) \<noteq> []"
      by (auto simp: in_set_conv_nth)
    then have "table h ! (Suc i + d) \<noteq> NULL" by auto
    with d(1) have q: "Suc i \<le> Suc i + d" "Suc i + d < length (table h)"
        "table h ! (Suc i + d) \<noteq> NULL"
      by simp_all
    from first_bucket_from [OF q] obtain j where
      j: "Suc i \<le> j" "j < length (table h)" "table h ! j \<noteq> NULL"
        "\<forall>m. Suc i \<le> m \<and> m < j \<longrightarrow> table h ! m = NULL"
      by blast
    then have a: "Suc i < length (table h)" by simp
    from lt n31 have small: "unat (index it) < 2 ^ 31" using ui by simp
    then have suc: "unat (index it + 1) = Suc i" using ui by (simp add: unat_succ)
    have usz: "unat (size_ht h) = length (table h)"
      using unat_size [OF size] len by simp
    have ge: "\<not> index it + 1 \<ge> size_ht h"
      using a by (simp add: word_le_nat_alt suc usz)
    from keyed j(2) have kj: "all_keyed (table h ! j)" by (simp add: list_all_length)
    with j(3) obtain s w m where tj: "table h ! j = Entry (Some s) w m"
      using all_keyed_has_key by blast
    with kj have km: "all_keyed m" by simp
    have rd: "read_table h (uint (index it + 1)) = Inr (table h ! Suc i)"
      using read_table_nth [of "index it + 1" h] a suc by simp
    from find_loop_next_bucket [OF size len keyed _ j(2) _ j(3), of "index it + 1"]
    obtain idx' where idx': "unat idx' = j"
      and fl: "find_loop h (index it + 1) (table h ! Suc i) = Inr (idx', table h ! j)"
      using j(1,4) suc by auto
    let ?it' = "it\<lparr>index := idx', elem := table h ! j\<rparr>"
    have "symtabNext it out = Inr (Some s, ?it', w)"
      using NULL e h ge rd fl tj
      by (simp add: symtabNext_def Let_def next_result_def)
    moreover have "it_at h ?it' j m"
      using h idx' j(2,3) tj km by (simp add: it_at_def)
    moreover have "remaining h i rest = (s, w) # remaining h j m"
    proof -
      have "concat (map chain_pairs (drop (Suc i) (table h)))
          = concat (map chain_pairs (drop j (table h)))"
        using j(1,2,4) by (intro concat_skip_empty) auto
      moreover have "drop j (table h) = table h ! j # drop (Suc j) (table h)"
        using j(2) by (simp add: Cons_nth_drop_Suc)
      ultimately show ?thesis
        using NULL tj by (simp add: remaining_def)
    qed
    ultimately show ?thesis using R by auto
  qed
qed

lemma symtabNext_finish:
  assumes size: "1 \<le> sint (size_ht h)" and len: "length (table h) = nat (sint (size_ht h))"
    and keyed: "list_all all_keyed (table h)"
    and st: "it_at h it i rest" and R: "remaining h i rest = []"
  shows "\<exists>it'. symtabNext it out = (if past_end h then Inl OutOfBounds else Inr (None, it', out))"
proof -
  from st obtain k v where h: "ht it = h" and ui: "unat (index it) = i"
    and lt: "i < length (table h)" and e: "elem it = Entry k v rest" and kr: "all_keyed rest"
    and here: "table h ! i \<noteq> NULL \<or> (Suc i = length (table h) \<and> list_all (\<lambda>c. c = NULL) (table h))"
    by (auto simp: it_at_def)
  from remaining_Nil [OF keyed kr R] have rest: "rest = NULL"
    and later: "\<forall>m. i < m \<and> m < length (table h) \<longrightarrow> table h ! m = NULL"
    by simp_all
  have n31: "length (table h) < 2 ^ 31"
    using size_bound [of "size_ht h"] len by simp
  from lt n31 have small: "unat (index it) < 2 ^ 31" using ui by simp
  then have suc: "unat (index it + 1) = Suc i" using ui by (simp add: unat_succ)
  have usz: "unat (size_ht h) = length (table h)"
    using unat_size [OF size] len by simp
  have ge: "index it + 1 \<ge> size_ht h \<longleftrightarrow> length (table h) \<le> Suc i"
    by (simp add: word_le_nat_alt suc usz)
  consider (last) "Suc i = length (table h)"
    | (before) "Suc (Suc i) = length (table h)"
    | (early) "Suc (Suc i) < length (table h)"
    using lt by linarith
  then show ?thesis
  proof cases
    case last
    have "\<not> past_end h"
    proof
      assume pe: "past_end h"
      from last have "length (table h) - 1 = i" by simp
      with pe have "table h ! i = NULL" by (simp add: past_end_def)
      with here have "\<forall>n < length (table h). table h ! n = NULL"
        by (simp add: list_all_length)
      moreover from pe have "2 \<le> length (table h)"
        by (simp add: past_end_def)
      then have "length (table h) - 2 < length (table h)"
        by linarith
      ultimately have "table h ! (length (table h) - 2) = NULL" by blast
      with pe show False by (simp add: past_end_def)
    qed
    moreover have "symtabNext it out = Inr (None, it\<lparr>index := index it + 1\<rparr>, out)"
      using rest e h ge last by (simp add: symtabNext_def Let_def)
    ultimately show ?thesis by auto
  next
    case before
    with here have ti: "table h ! i \<noteq> NULL" by auto
    from before later have tl: "table h ! Suc i = NULL" by simp
    from before have "length (table h) - 2 = i" "length (table h) - 1 = Suc i"
      "2 \<le> length (table h)"
      by linarith+
    with ti tl have pe: "past_end h"
      unfolding past_end_def by simp
    have rd: "read_table h (uint (index it + 1)) = Inr NULL"
      using read_table_nth [of "index it + 1" h] before suc tl by simp
    have "unat (index it + 1) < 2 ^ 31" using suc before n31 by simp
    then have "unat (index it + 1 + 1) = Suc (unat (index it + 1))" by (rule unat_succ)
    with suc before have "unat (index it + 1 + 1) = length (table h)" by (simp only:)
    then have "int (unat (index it + 1 + 1)) = int (length (table h))"
      by (simp only:)
    then have "uint (index it + 1 + 1) = int (length (table h))"
      by (simp only: of_nat_unat)
    then have rd2: "read_table h (uint (index it + 1 + 1)) = Inl OutOfBounds"
      unfolding read_table_def by (simp only:) simp
    have "find_loop h (index it + 1) NULL = Inl OutOfBounds"
      using rd2 by (subst find_loop.simps) simp
    then have "symtabNext it out = Inl OutOfBounds"
      using rest e h ge before rd by (simp add: symtabNext_def Let_def)
    with pe show ?thesis by simp
  next
    case early
    have "\<not> past_end h"
    proof
      assume "past_end h"
      moreover from early have "i < length (table h) - 2"
        "length (table h) - 2 < length (table h)"
        by linarith+
      with later have "table h ! (length (table h) - 2) = NULL" by blast
      ultimately show False by (simp add: past_end_def)
    qed
    moreover have rd: "read_table h (uint (index it + 1)) = Inr NULL"
      using read_table_nth [of "index it + 1" h] early suc later by simp
    from find_loop_all_empty [OF size len, of "index it + 1"] obtain idx' where
      "find_loop h (index it + 1) NULL = Inr (idx', NULL)"
      using early suc later by auto
    then have "symtabNext it out = Inr (None, it\<lparr>index := idx', elem := NULL\<rparr>, out)"
      using rest e h ge early rd by (simp add: symtabNext_def Let_def next_result_def)
    ultimately show ?thesis by auto
  qed
qed

lemma drain_in:
  assumes size: "1 \<le> sint (size_ht h)" and len: "length (table h) = nat (sint (size_ht h))"
    and keyed: "list_all all_keyed (table h)"
  shows "it_at h it i rest \<Longrightarrow> remaining h i rest = R
    \<Longrightarrow> drain (Suc (length R)) it out = Some (if past_end h then Inl OutOfBounds else Inr R)"
proof (induction R arbitrary: it i rest out)
  case Nil
  from symtabNext_finish [OF size len keyed Nil(1,2), of out]
  obtain it' where "symtabNext it out = (if past_end h then Inl OutOfBounds else Inr (None, it', out))"
    by blast
  then show ?case by simp
next
  case (Cons p ps)
  from symtabNext_yield [OF size len keyed Cons(2,3), of out]
  obtain s w it' i' rest' where p: "p = (s, w)" and ps: "remaining h i' rest' = ps"
    and nx: "symtabNext it out = Inr (Some s, it', w)" and st: "it_at h it' i' rest'"
    by blast
  from Cons.IH [OF st ps, of w]
  have "drain (Suc (length ps)) it' w = Some (if past_end h then Inl OutOfBounds else Inr ps)" .
  with nx p show ?case by simp
qed

text \<open>\<^verbatim>\<open>symtabCreateIterator\<close>, when both of its allocations succeed: on the empty table
  with one bucket its search reads bucket 1; on every other table it returns an
  iterator in front of the first stored pair.\<close>

lemma symtabCreateIterator_result:
  assumes size: "1 \<le> sint (size_ht h)" and len: "length (table h) = nat (sint (size_ht h))"
    and keyed: "list_all all_keyed (table h)"
    and m1: "malloc al = (True, al1)" and m2: "malloc al1 = (True, al2)"
  shows "(length (table h) = 1 \<and> table h ! 0 = NULL \<longrightarrow>
            symtabCreateIterator al h = Inl OutOfBounds)
    \<and> (\<not> (length (table h) = 1 \<and> table h ! 0 = NULL) \<longrightarrow>
          (\<exists>it j rest. symtabCreateIterator al h = Inr (Some it, al2) \<and> it_at h it j rest
             \<and> remaining h j rest = concat (map chain_pairs (table h))))"
proof (intro conjI impI)
  assume one: "length (table h) = 1 \<and> table h ! 0 = NULL"
  then have rd: "read_table h 0 = Inr NULL" by (simp add: read_table_def)
  from one have "find_loop h 0 NULL = Inl OutOfBounds" by (simp add: find_loop_capacity_one)
  with rd m1 show "symtabCreateIterator al h = Inl OutOfBounds"
    by (simp add: symtabCreateIterator_def)
next
  assume more: "\<not> (length (table h) = 1 \<and> table h ! 0 = NULL)"
  from size len have pos: "0 < length (table h)" by simp
  then have rd: "read_table h 0 = Inr (table h ! 0)" by (simp add: read_table_def)
  show "\<exists>it j rest. symtabCreateIterator al h = Inr (Some it, al2) \<and> it_at h it j rest
      \<and> remaining h j rest = concat (map chain_pairs (table h))"
  proof (cases "\<exists>m < length (table h). table h ! m \<noteq> NULL")
    case True
    then obtain m where m: "0 \<le> m" "m < length (table h)" "table h ! m \<noteq> NULL" by auto
    from first_bucket_from [OF m] obtain j where
      j: "j < length (table h)" "table h ! j \<noteq> NULL" "\<forall>m. m < j \<longrightarrow> table h ! m = NULL"
      by auto
    from find_loop_next_bucket [OF size len keyed _ j(1) _ j(2), of 0]
    obtain idx' where idx': "unat idx' = j"
      and fl: "find_loop h 0 (table h ! 0) = Inr (idx', table h ! j)"
      using j(3) by auto
    let ?it = "\<lparr>ht = h, index = idx', elem = Entry (junk_key al1) (junk_value al1) (table h ! j)\<rparr>"
    have "symtabCreateIterator al h = Inr (Some ?it, al2)"
      using rd fl m1 m2 by (simp add: symtabCreateIterator_def)
    moreover from keyed j(1) have "all_keyed (table h ! j)" by (simp add: list_all_length)
    with idx' j(1,2) have "it_at h ?it j (table h ! j)"
      by (simp add: it_at_def)
    moreover have "remaining h j (table h ! j) = concat (map chain_pairs (table h))"
    proof -
      have "concat (map chain_pairs (drop 0 (table h))) = concat (map chain_pairs (drop j (table h)))"
        using j(1,3) by (intro concat_skip_empty) auto
      moreover have "drop j (table h) = table h ! j # drop (Suc j) (table h)"
        using j(1) by (simp add: Cons_nth_drop_Suc)
      ultimately show ?thesis by (simp add: remaining_def)
    qed
    ultimately show ?thesis by blast
  next
    case False
    then have empty: "\<forall>m < length (table h). table h ! m = NULL" by simp
    with pos more have "length (table h) \<noteq> 1" by auto
    with pos have "1 < length (table h)" by linarith
    then have two: "Suc (unat (0 :: uint)) < length (table h)" by simp
    from find_loop_all_empty [OF size len two] empty obtain idx' where
      idx': "unat idx' = length (table h) - 1" and fl: "find_loop h 0 NULL = Inr (idx', NULL)"
      by auto
    let ?it = "\<lparr>ht = h, index = idx', elem = Entry (junk_key al1) (junk_value al1) NULL\<rparr>"
    from empty pos have t0: "table h ! 0 = NULL" by simp
    have "symtabCreateIterator al h = Inr (Some ?it, al2)"
      using rd t0 fl m1 m2 by (simp add: symtabCreateIterator_def)
    moreover have "it_at h ?it (length (table h) - 1) NULL"
      using idx' pos empty by (simp add: it_at_def list_all_length)
    moreover have "concat (map chain_pairs (table h)) = []"
      using empty by (auto simp: in_set_conv_nth)
    then have "remaining h (length (table h) - 1) NULL = concat (map chain_pairs (table h))"
      using pos by (simp add: remaining_def)
    ultimately show ?thesis by blast
  qed
qed

text \<open>The whole iteration over a table that satisfies the invariant, from a new
  iterator: as many calls of \<^verbatim>\<open>symtabNext\<close> as there are nodes, and one more. On the
  tables of \<open>past_end\<close> the last call reads outside the bucket array. On all others the
  calls yield every stored pair once, bucket after bucket and each chain from its
  head, and the last call returns the null pointer.\<close>

lemma iteration_result:
  assumes ok: "table_ok h" and ci: "symtabCreateIterator al h = Inr (Some it, al')"
  shows "drain (Suc (num_entries h)) it out =
     Some (if past_end h then Inl OutOfBounds else Inr (concat (map chain_pairs (table h))))"
proof -
  from ok have size: "1 \<le> sint (size_ht h)" and len: "length (table h) = nat (sint (size_ht h))"
    by (simp_all add: table_ok_nth)
  from ok have keyed: "list_all all_keyed (table h)" by (rule table_ok_keyed)
  from ci have m1: "malloc al = (True, snd (malloc al))"
    by (auto simp: symtabCreateIterator_def split: prod.splits bool.splits)
  from ci m1 have m2: "malloc (snd (malloc al)) = (True, snd (malloc (snd (malloc al))))"
    by (auto simp: symtabCreateIterator_def split: prod.splits bool.splits sum.splits)
  from symtabCreateIterator_result [OF size len keyed m1 m2] ci
  obtain j rest where st: "it_at h it j rest"
    and R: "remaining h j rest = concat (map chain_pairs (table h))"
    by (cases "length (table h) = 1 \<and> table h ! 0 = NULL") auto
  from drain_in [OF size len keyed st R, of out] show ?thesis
    by (simp add: num_entries_concat [OF keyed])
qed

lemma iteration_complete:
  assumes "table_ok h" and "\<not> past_end h"
    and "symtabCreateIterator al h = Inr (Some it, al')"
  shows "drain (Suc (num_entries h)) it out = Some (Inr (concat (map chain_pairs (table h))))"
  using iteration_result [OF assms(1,3), of out] assms(2) by simp

lemma iteration_past_end:
  assumes "table_ok h" and "past_end h"
    and "symtabCreateIterator al h = Inr (Some it, al')"
  shows "drain (Suc (num_entries h)) it out = Some (Inl OutOfBounds)"
  using iteration_result [OF assms(1,3), of out] assms(2) by simp

text \<open>The scenario of one bucket with the keys zebra, apple and mango installed in
  that order: the iteration yields apple, mango, zebra.\<close>

lemma iteration_scenario:
  "symtabCreateIterator plenty
     \<lparr>size_ht = 1, table = [Entry (Some ''apple'') 2
        (Entry (Some ''mango'') 3 (Entry (Some ''zebra'') 1 NULL))]\<rparr>
     = Inr (Some \<lparr>ht = \<lparr>size_ht = 1, table = [Entry (Some ''apple'') 2
        (Entry (Some ''mango'') 3 (Entry (Some ''zebra'') 1 NULL))]\<rparr>, index = 0,
        elem = Entry None 0 (Entry (Some ''apple'') 2
        (Entry (Some ''mango'') 3 (Entry (Some ''zebra'') 1 NULL)))\<rparr>, plenty)
   \<and> drain 4 \<lparr>ht = \<lparr>size_ht = 1, table = [Entry (Some ''apple'') 2
        (Entry (Some ''mango'') 3 (Entry (Some ''zebra'') 1 NULL))]\<rparr>, index = 0,
        elem = Entry None 0 (Entry (Some ''apple'') 2
        (Entry (Some ''mango'') 3 (Entry (Some ''zebra'') 1 NULL)))\<rparr> 0
     = Some (Inr [(''apple'', 2), (''mango'', 3), (''zebra'', 1)])"
  by code_simp

text \<open>An empty table with at least two buckets: the iterator is created, and its first
  call returns the null pointer and leaves the output location alone. A lookup in an
  empty table finds nothing.\<close>

lemma empty_table_iterator:
  assumes s: "2 \<le> sint s"
    and m1: "malloc al = (True, al1)" and m2: "malloc al1 = (True, al2)"
  shows "\<exists>it it'. symtabCreateIterator al \<lparr>size_ht = s, table = replicate (nat (sint s)) NULL\<rparr>
        = Inr (Some it, al2) \<and> symtabNext it out = Inr (None, it', out)"
proof -
  let ?h = "\<lparr>size_ht = s, table = replicate (nat (sint s)) NULL\<rparr>"
  have size: "1 \<le> sint (size_ht ?h)" and len: "length (table ?h) = nat (sint (size_ht ?h))"
    using s by simp_all
  have rd: "read_table ?h 0 = Inr NULL"
    using s by (simp add: read_table_def)
  from find_loop_all_empty [OF size len, of 0] obtain idx' where
    idx': "unat idx' = length (table ?h) - 1" and fl: "find_loop ?h 0 NULL = Inr (idx', NULL)"
    using s by auto
  let ?it = "\<lparr>ht = ?h, index = idx', elem = Entry (junk_key al1) (junk_value al1) NULL\<rparr>"
  have ci: "symtabCreateIterator al ?h = Inr (Some ?it, al2)"
    using rd fl m1 m2 by (simp add: symtabCreateIterator_def)
  have n31: "length (table ?h) < 2 ^ 31"
    using size_bound [of s] by simp
  with idx' have "unat idx' < 2 ^ 31" by simp
  then have "unat (idx' + 1) = Suc (unat idx')" by (rule unat_succ)
  with idx' s have "unat (idx' + 1) = nat (sint s)" by simp
  moreover have "unat s = nat (sint s)"
    using unat_size [OF size] by simp
  ultimately have "idx' + 1 \<ge> s" by (simp add: word_le_nat_alt)
  then have "symtabNext ?it out = Inr (None, ?it\<lparr>index := idx' + 1\<rparr>, out)"
    by (simp add: symtabNext_def Let_def)
  with ci show ?thesis by blast
qed

lemma empty_table_lookup:
  assumes "1 \<le> sint s"
  shows "lookup \<lparr>size_ht = s, table = replicate (nat (sint s)) NULL\<rparr> key = Inr 0
    \<and> symtabLookup \<lparr>size_ht = s, table = replicate (nat (sint s)) NULL\<rparr> key = Inr 0"
proof -
  let ?h = "\<lparr>size_ht = s, table = replicate (nat (sint s)) NULL\<rparr>"
  from bucket_index_range [of ?h key] assms obtain bin where
    b: "bucket_index ?h key = Inr bin" "0 \<le> bin" "bin < sint s" by auto
  then have "lookup ?h key = Inr 0"
    by (simp add: lookup_def read_table_def)
  then show ?thesis by (simp add: symtabLookup_def)
qed

text \<open>A call of \<^verbatim>\<open>symtabNext\<close> with a null cursor reads through the null pointer.\<close>

lemma symtabNext_null_cursor: "elem it = NULL \<Longrightarrow> symtabNext it out = Inl NullDeref"
  by (simp add: symtabNext_def)

text \<open>
  C3. The claim asks an iteration to yield every stored pair and then the end result.
  On the table of capacity 2 that holds the one key d (in bucket 0), the first call of
  \<^verbatim>\<open>symtabNext\<close> yields d and the second reads bucket 2, outside the array, where the
  claim expects the end result.
\<close>

theorem symtabNext_out_of_bounds:
  "symtabCreate plenty 2 = (Some \<lparr>size_ht = 2, table = [NULL, NULL]\<rparr>, plenty)
   \<and> symtabInstall plenty \<lparr>size_ht = 2, table = [NULL, NULL]\<rparr> ''d'' 1
       = Inr (1, plenty, \<lparr>size_ht = 2, table = [Entry (Some ''d'') 1 NULL, NULL]\<rparr>)
   \<and> symtabCreateIterator plenty \<lparr>size_ht = 2, table = [Entry (Some ''d'') 1 NULL, NULL]\<rparr>
       = Inr (Some \<lparr>ht = \<lparr>size_ht = 2, table = [Entry (Some ''d'') 1 NULL, NULL]\<rparr>,
                    index = 0, elem = Entry None 0 (Entry (Some ''d'') 1 NULL)\<rparr>, plenty)
   \<and> symtabNext \<lparr>ht = \<lparr>size_ht = 2, table = [Entry (Some ''d'') 1 NULL, NULL]\<rparr>,
                    index = 0, elem = Entry None 0 (Entry (Some ''d'') 1 NULL)\<rparr> 0
       = Inr (Some ''d'',
              \<lparr>ht = \<lparr>size_ht = 2, table = [Entry (Some ''d'') 1 NULL, NULL]\<rparr>,
                    index = 0, elem = Entry (Some ''d'') 1 NULL\<rparr>, 1)
   \<and> symtabNext \<lparr>ht = \<lparr>size_ht = 2, table = [Entry (Some ''d'') 1 NULL, NULL]\<rparr>,
                    index = 0, elem = Entry (Some ''d'') 1 NULL\<rparr> 1
       = Inl OutOfBounds"
  by code_simp

text \<open>
  C7. The claim asks every call after the end result to give the end result again. On
  the table of capacity 3 that holds the one key d (in bucket 0), the second call of
  \<^verbatim>\<open>symtabNext\<close> gives the end result and leaves the cursor null; the third call reads
  the \<^verbatim>\<open>next\<close> field through that null cursor.
\<close>

theorem symtabNext_after_end:
  "symtabCreate plenty 3 = (Some \<lparr>size_ht = 3, table = [NULL, NULL, NULL]\<rparr>, plenty)
   \<and> symtabInstall plenty \<lparr>size_ht = 3, table = [NULL, NULL, NULL]\<rparr> ''d'' 1
       = Inr (1, plenty, \<lparr>size_ht = 3, table = [Entry (Some ''d'') 1 NULL, NULL, NULL]\<rparr>)
   \<and> symtabCreateIterator plenty \<lparr>size_ht = 3, table = [Entry (Some ''d'') 1 NULL, NULL, NULL]\<rparr>
       = Inr (Some \<lparr>ht = \<lparr>size_ht = 3, table = [Entry (Some ''d'') 1 NULL, NULL, NULL]\<rparr>,
                    index = 0, elem = Entry None 0 (Entry (Some ''d'') 1 NULL)\<rparr>, plenty)
   \<and> symtabNext \<lparr>ht = \<lparr>size_ht = 3, table = [Entry (Some ''d'') 1 NULL, NULL, NULL]\<rparr>,
                    index = 0, elem = Entry None 0 (Entry (Some ''d'') 1 NULL)\<rparr> 0
       = Inr (Some ''d'',
              \<lparr>ht = \<lparr>size_ht = 3, table = [Entry (Some ''d'') 1 NULL, NULL, NULL]\<rparr>,
                    index = 0, elem = Entry (Some ''d'') 1 NULL\<rparr>, 1)
   \<and> symtabNext \<lparr>ht = \<lparr>size_ht = 3, table = [Entry (Some ''d'') 1 NULL, NULL, NULL]\<rparr>,
                    index = 0, elem = Entry (Some ''d'') 1 NULL\<rparr> 1
       = Inr (None,
              \<lparr>ht = \<lparr>size_ht = 3, table = [Entry (Some ''d'') 1 NULL, NULL, NULL]\<rparr>,
                    index = 2, elem = NULL\<rparr>, 1)
   \<and> symtabNext \<lparr>ht = \<lparr>size_ht = 3, table = [Entry (Some ''d'') 1 NULL, NULL, NULL]\<rparr>,
                    index = 2, elem = NULL\<rparr> 1
       = Inl NullDeref"
  by code_simp

text \<open>
  C8. The claim asks \<^verbatim>\<open>symtabCreateIterator\<close> to give an exhausted cursor on every
  empty table. On the empty table of capacity 1 its search loop reads bucket 1,
  outside the array, before it tests the bound.
\<close>

theorem symtabCreateIterator_capacity_one:
  "symtabCreate plenty 1 = (Some \<lparr>size_ht = 1, table = [NULL]\<rparr>, plenty)
   \<and> symtabCreateIterator plenty \<lparr>size_ht = 1, table = [NULL]\<rparr> = Inl OutOfBounds"
  by code_simp

subsection \<open>symtabDelete\<close>

text \<open>On a table that satisfies the invariant the loop never runs to its end: it stops
  at the first empty bucket, or else at the index one past the array.\<close>

declare delete_loop.simps [simp del]

lemma delete_loop_stops:
  assumes "length (table h) = nat (sint (size_ht h))" and "0 \<le> i" and "i \<le> sint (size_ht h)"
  shows "fst (delete_loop h i p fr) = Inl NullDeref \<or> fst (delete_loop h i p fr) = Inl OutOfBounds"
  using assms
proof (induction h i p fr rule: delete_loop.induct)
  case (1 hashtable i iterate fr)
  show ?case
  proof (cases "read_table hashtable i")
    case (Inl e)
    then have "e = OutOfBounds" by (auto simp: read_table_def split: if_splits)
    with Inl 1(4) show ?thesis
      by (subst delete_loop.simps, subst (2) delete_loop.simps) simp
  next
    case (Inr q)
    then have lt: "i < sint (size_ht hashtable)"
      using 1(2,3) by (auto simp: read_table_def split: if_splits)
    show ?thesis
    proof (cases q)
      case NULL
      with Inr 1(4) show ?thesis
        by (subst delete_loop.simps, subst (2) delete_loop.simps) simp
    next
      case (Entry k v n)
      from 1(1) [OF 1(4) Inr Entry 1(2)] 1(3) lt
      have "fst (delete_loop hashtable (i + 1) q
              (case k of None \<Rightarrow> fr | Some s \<Rightarrow> fr @ [FreedKey s])) = Inl NullDeref
          \<or> fst (delete_loop hashtable (i + 1) q
              (case k of None \<Rightarrow> fr | Some s \<Rightarrow> fr @ [FreedKey s])) = Inl OutOfBounds"
        by simp
      with Inr Entry 1(4) show ?thesis
        by (subst delete_loop.simps, subst (2) delete_loop.simps) simp
    qed
  qed
qed

lemma symtabDelete_never_completes:
  assumes "table_ok h"
  shows "fst (symtabDelete h) = Inl NullDeref \<or> fst (symtabDelete h) = Inl OutOfBounds"
proof -
  from assms have "length (table h) = nat (sint (size_ht h))" "0 \<le> sint (size_ht h)"
    by (simp_all add: table_ok_nth)
  from delete_loop_stops [OF this(1) _ this(2), where p = NULL and fr = "[]"]
  show ?thesis
    by (auto simp: symtabDelete_def split: prod.splits sum.splits)
qed

text \<open>
  C1. The claim asks \<^verbatim>\<open>symtabDelete\<close> to visit the buckets 0 .. capacity-1 only, to
  free every node of every chain and to skip empty buckets. The code does none of the
  three. On the empty table of capacity 1 it reads the key of the null head of
  bucket 0. On the table of capacity 1 that holds the chain a, b it frees the key of
  the head only, frees no node, and then reads bucket 1, which is outside the array.
\<close>

theorem symtabDelete_undefined:
  "symtabCreate plenty 1 = (Some \<lparr>size_ht = 1, table = [NULL]\<rparr>, plenty)
   \<and> symtabDelete \<lparr>size_ht = 1, table = [NULL]\<rparr> = (Inl NullDeref, [])
   \<and> symtabInstall plenty \<lparr>size_ht = 1, table = [NULL]\<rparr> ''b'' 2
       = Inr (1, plenty, \<lparr>size_ht = 1, table = [Entry (Some ''b'') 2 NULL]\<rparr>)
   \<and> symtabInstall plenty \<lparr>size_ht = 1, table = [Entry (Some ''b'') 2 NULL]\<rparr> ''a'' 1
       = Inr (1, plenty,
           \<lparr>size_ht = 1, table = [Entry (Some ''a'') 1 (Entry (Some ''b'') 2 NULL)]\<rparr>)
   \<and> symtabDelete \<lparr>size_ht = 1, table = [Entry (Some ''a'') 1 (Entry (Some ''b'') 2 NULL)]\<rparr>
       = (Inl OutOfBounds, [FreedKey ''a''])"
  by code_simp

end
